theory Spec2Isabelle
  imports Complex_Main "HOL-Library.Word" "HOL-Library.Multiset"
begin

unbundle bit_operations_syntax

section \<open>The c-ray renderer (src/dep/c-ray.c)\<close>

text \<open>
  A shallow embedding of the rendering core of \<^verbatim>\<open>c-ray.c\<close>: vector macros, the
  ray/sphere intersection, the mutually recursive \<^verbatim>\<open>trace\<close>/\<^verbatim>\<open>shade\<close>, primary ray
  generation with jitter, the scanline renderer, the sequential renderer and the scanline
  partition of the multithreaded driver.

  Arithmetic model. C \<^verbatim>\<open>int\<close> values that only count or index (loop counters,
  scanline numbers, recursion depth) are HOL integers; the bit-level index computation of
  \<^verbatim>\<open>jitter\<close> is on 32-bit words, where addition wraps. The values of C \<^verbatim>\<open>double\<close> are
  real numbers; there is no infinity and no NaN. Where the source divides (\<^verbatim>\<open>NORMALIZE\<close>,
  the roots in \<^verbatim>\<open>ray_sphere\<close>, the normal, \<^verbatim>\<open>1.0 / samples\<close>, the pixel-to-plane
  mapping, \<^verbatim>\<open>yres / thread_num\<close>) the model divides as well; a zero divisor yields 0 in
  HOL where the C code yields an infinity or a NaN, so the model describes the code on
  inputs that keep all divisors non-zero. The conversions \<^verbatim>\<open>(int)\<close> and \<^verbatim>\<open>(uint32_t)\<close>
  truncate towards zero; the latter is undefined in C when the truncated value is not
  representable, which is the value \<open>None\<close> here.

  Rounding. The operations on doubles in the colour and geometry computations are exact
  in the model. Rounding is modelled in the two places where the source leaves the
  doubles: \<^verbatim>\<open>get_primary_ray\<close> stores the camera basis in a matrix of \<^verbatim>\<open>float\<close>, a
  narrowing conversion (\<open>float_of_double\<close>), and \<^verbatim>\<open>cray_mt\<close> converts the accumulated
  double \<^verbatim>\<open>sl\<close> to \<^verbatim>\<open>int\<close>, so in the scanline partition every operation on a double is
  followed by a rounding \<open>rnd\<close>. That rounding is a parameter of the partition; the claims
  about the partition are proved for exact arithmetic (the identity) and for every rounding
  that has the properties \<open>fp_rounding\<close>, which \<open>double_round\<close>, the rounding of IEEE 754
  binary64, has.
\<close>

subsection \<open>Data\<close>

text \<open>\<^verbatim>\<open>struct vec3 { double x, y, z; }\<close>; the fields are named \<open>vx\<close>, \<open>vy\<close>, \<open>vz\<close>.\<close>

record vec3 =
  vx :: real
  vy :: real
  vz :: real

record ray =
  orig :: vec3
  dir :: vec3

record material =
  col :: vec3
  spow :: real
  refl :: real

text \<open>The \<^verbatim>\<open>next\<close> pointer of \<^verbatim>\<open>struct sphere\<close> is the tail of a HOL list.\<close>

record sphere =
  pos :: vec3
  rad :: real
  mat :: material

text \<open>\<^verbatim>\<open>struct spoint\<close>: fields \<^verbatim>\<open>pos\<close> and \<^verbatim>\<open>dist\<close> are \<open>sp_pos\<close> and \<open>sp_dist\<close>.\<close>

record spoint =
  sp_pos :: vec3
  normal :: vec3
  vref :: vec3
  sp_dist :: real

record camera =
  cam_pos :: vec3
  targ :: vec3
  fov :: real

text \<open>
  \<^verbatim>\<open>struct thread_data\<close>: the scanline range of one worker. The thread id is not
  modelled and \<^verbatim>\<open>pixels\<close> is the one shared framebuffer.
\<close>

record thread_data =
  sl_start :: int
  sl_count :: int

type_synonym c_int = "32 word"

type_synonym uint32_t = "32 word"

text \<open>
  The file-level variables read while rendering. \<open>obj_list\<close> is the chain
  \<^verbatim>\<open>obj_list->next\<close>, \<open>lights\<close> the entries \<^verbatim>\<open>lights[0 .. lnum - 1]\<close>, \<open>urand\<close> and
  \<open>irand\<close> the two jitter tables, of \<^verbatim>\<open>NRAN\<close> entries each. \<open>little_endian\<close> says
  whether the macro \<^verbatim>\<open>LITTLE_ENDIAN\<close> is defined when the file is compiled.
\<close>

record globals =
  xres :: int
  yres :: int
  rays_per_pixel :: int
  obj_list :: "sphere list"
  lights :: "vec3 list"
  cam :: camera
  urand :: "vec3 list"
  irand :: "c_int list"
  little_endian :: bool

text \<open>
  What a render changes: the framebuffer, as a map from pixel index to packed pixel, and the
  function-local \<^verbatim>\<open>static double sf\<close> of \<^verbatim>\<open>get_sample_pos\<close>.
\<close>

record rstate =
  fb :: "int \<Rightarrow> uint32_t"
  sf :: real

subsection \<open>Constants and macros\<close>

definition RAY_MAG :: real where
  "RAY_MAG = 1000"

definition MAX_RAY_DEPTH :: int where
  "MAX_RAY_DEPTH = 5"

definition FOV :: real where
  "FOV = 0.78539816"

definition HALF_FOV :: real where
  "HALF_FOV = FOV * 0.5"

definition ERR_MARGIN :: real where
  "ERR_MARGIN = 1 / 1000000"

definition aspect :: real where
  "aspect = 1.333333"

definition NRAN :: nat where
  "NRAN = 1024"

definition MASK :: c_int where
  "MASK = of_nat (NRAN - 1)"

definition RSHIFT :: "globals \<Rightarrow> nat" where
  "RSHIFT g = (if little_endian g then 16 else 0)"

definition BSHIFT :: "globals \<Rightarrow> nat" where
  "BSHIFT g = (if little_endian g then 0 else 16)"

definition GSHIFT :: nat where
  "GSHIFT = 8"

definition SQ :: "real \<Rightarrow> real" where
  "SQ a = a * a"

text \<open>The macros \<^verbatim>\<open>MAX\<close> and \<^verbatim>\<open>MIN\<close>, named \<open>MAX_c\<close> and \<open>MIN_c\<close> here.\<close>

definition MAX_c :: "real \<Rightarrow> real \<Rightarrow> real" where
  "MAX_c a b = (if a > b then a else b)"

definition MIN_c :: "real \<Rightarrow> real \<Rightarrow> real" where
  "MIN_c a b = (if a < b then a else b)"

definition DOT :: "vec3 \<Rightarrow> vec3 \<Rightarrow> real" where
  "DOT a b = vx a * vx b + vy a * vy b + vz a * vz b"

definition NORMALIZE :: "vec3 \<Rightarrow> vec3" where
  "NORMALIZE a =
     (let len = sqrt (DOT a a)
      in \<lparr>vx = vx a / len, vy = vy a / len, vz = vz a / len\<rparr>)"

text \<open>
  \<^verbatim>\<open>pow\<close> of the C library, used by \<^verbatim>\<open>shade\<close> with a base that is at least 0 and an
  exponent greater than 0.
\<close>

definition pow :: "real \<Rightarrow> real \<Rightarrow> real" where
  "pow a b = a powr b"

text \<open>The conversion \<^verbatim>\<open>(int)d\<close> of a double: truncation towards zero.\<close>

definition int_of_double :: "real \<Rightarrow> int" where
  "int_of_double d = (if 0 \<le> d then \<lfloor>d\<rfloor> else \<lceil>d\<rceil>)"

text \<open>
  The conversion \<^verbatim>\<open>(uint32_t)d\<close>: defined when the truncated value is representable,
  that is for \<open>-1 < d < 2^32\<close>.
\<close>

definition uint32_of_double :: "real \<Rightarrow> uint32_t option" where
  "uint32_of_double d =
     (if - 1 < d \<and> d < 2 ^ 32 then Some (word_of_int (int_of_double d)) else None)"

text \<open>
  Rounding in IEEE 754 binary arithmetic, to nearest with ties to even. \<open>round_even\<close>
  rounds a real number to an integer. A format has \<open>p\<close> significant bits and least
  exponent \<open>emin\<close>: a number \<open>x\<close> with \<open>2 ^ e \<le> \<bar>x\<bar> < 2 ^ (e + 1)\<close> is rounded to a multiple
  of \<open>2 ^ (max e emin - (p - 1))\<close>, so numbers below \<open>2 ^ emin\<close> are rounded as subnormals.
  The largest exponent is not modelled: no value overflows to an infinity.
\<close>

definition round_even :: "real \<Rightarrow> int" where
  "round_even y =
     (let f = \<lfloor>y\<rfloor>; t = y - real_of_int f
      in if t < 1 / 2 then f else if 1 / 2 < t then f + 1 else if even f then f else f + 1)"

definition grid_round :: "int \<Rightarrow> real \<Rightarrow> real" where
  "grid_round e x = real_of_int (round_even (x / 2 powr real_of_int e)) * 2 powr real_of_int e"

definition ulp_exponent :: "nat \<Rightarrow> int \<Rightarrow> real \<Rightarrow> int" where
  "ulp_exponent p emin x = max \<lfloor>log 2 \<bar>x\<bar>\<rfloor> emin - (int p - 1)"

definition ieee_round :: "nat \<Rightarrow> int \<Rightarrow> real \<Rightarrow> real" where
  "ieee_round p emin x = (if x = 0 then 0 else grid_round (ulp_exponent p emin x) x)"

text \<open>The rounding of a result to \<^verbatim>\<open>double\<close> (binary64: 53 bits, least exponent -1022).\<close>

definition double_round :: "real \<Rightarrow> real" where
  "double_round = ieee_round 53 (- 1022)"

text \<open>
  The conversion of a \<^verbatim>\<open>double\<close> to \<^verbatim>\<open>float\<close> (binary32: 24 bits, least exponent -126),
  as in the assignment of a double to a \<^verbatim>\<open>float\<close> variable.
\<close>

definition float_of_double :: "real \<Rightarrow> real" where
  "float_of_double = ieee_round 24 (- 126)"

subsection \<open>Vectors\<close>

definition reflect :: "vec3 \<Rightarrow> vec3 \<Rightarrow> vec3" where
  "reflect v n =
     (let dot = vx v * vx n + vy v * vy n + vz v * vz n
      in \<lparr>vx = - (2 * dot * vx n - vx v),
          vy = - (2 * dot * vy n - vy v),
          vz = - (2 * dot * vz n - vz v)\<rparr>)"

definition cross_product :: "vec3 \<Rightarrow> vec3 \<Rightarrow> vec3" where
  "cross_product v1 v2 =
     \<lparr>vx = vy v1 * vz v2 - vz v1 * vy v2,
      vy = vz v1 * vx v2 - vx v1 * vz v2,
      vz = vx v1 * vy v2 - vy v1 * vx v2\<rparr>"

subsection \<open>Jitter and primary rays\<close>

text \<open>
  The two index expressions of \<^verbatim>\<open>jitter\<close>: \<^verbatim>\<open>(a + s) & MASK\<close> into \<^verbatim>\<open>irand\<close> and
  \<^verbatim>\<open>(a + (b << 2) + irand[(a + s) & MASK]) & MASK\<close> into \<^verbatim>\<open>urand\<close>.
\<close>

definition irand_index :: "c_int \<Rightarrow> c_int \<Rightarrow> c_int" where
  "irand_index a s = (a + s) AND MASK"

definition urand_index :: "c_int list \<Rightarrow> c_int \<Rightarrow> c_int \<Rightarrow> c_int \<Rightarrow> c_int" where
  "urand_index tab a b s = (a + push_bit 2 b + tab ! unat (irand_index a s)) AND MASK"

text \<open>
  \<^verbatim>\<open>jitter\<close> sets the \<^verbatim>\<open>x\<close> and \<^verbatim>\<open>y\<close> fields of its result and leaves \<^verbatim>\<open>z\<close> unset;
  its caller reads the two it sets. The model returns that pair.
\<close>

definition jitter :: "globals \<Rightarrow> c_int \<Rightarrow> c_int \<Rightarrow> c_int \<Rightarrow> real \<times> real" where
  "jitter g x y s =
     (vx (urand g ! unat (urand_index (irand g) x y s)),
      vy (urand g ! unat (urand_index (irand g) y x s)))"

text \<open>
  \<^verbatim>\<open>get_sample_pos\<close> takes the current value of its static \<^verbatim>\<open>sf\<close> and returns the new
  one with the sample position (fields \<^verbatim>\<open>x\<close> and \<^verbatim>\<open>y\<close>; \<^verbatim>\<open>z\<close> is left unset and
  overwritten by the caller).
\<close>

definition get_sample_pos :: "globals \<Rightarrow> real \<Rightarrow> int \<Rightarrow> int \<Rightarrow> int \<Rightarrow> (real \<times> real) \<times> real" where
  "get_sample_pos g sf0 x y sample =
     (let sf1 = (if sf0 = 0 then 1.5 / real_of_int (xres g) else sf0);
          ptx = (real_of_int x / real_of_int (xres g)) - 0.5;
          pty = - ((real_of_int y / real_of_int (yres g)) - 0.65) / aspect
      in if sample \<noteq> 0 then
           (let jt = jitter g (word_of_int x) (word_of_int y) (word_of_int sample)
            in ((ptx + fst jt * sf1, pty + snd jt * sf1 / aspect), sf1))
         else ((ptx, pty), sf1))"

text \<open>
  \<^verbatim>\<open>get_primary_ray\<close>. The matrix \<^verbatim>\<open>m\<close> is declared \<^verbatim>\<open>float\<close> in the source: the
  assignments \<^verbatim>\<open>m[0][0] = i.x\<close> and so on narrow the components of \<open>i\<close>, \<open>j\<close>, \<open>k\<close>; the
  entry \<^verbatim>\<open>m[a][b]\<close> is \<open>mab\<close> below. The products with its entries are on doubles again.
\<close>

definition get_primary_ray :: "globals \<Rightarrow> real \<Rightarrow> int \<Rightarrow> int \<Rightarrow> int \<Rightarrow> ray \<times> real" where
  "get_primary_ray g sf0 x y sample =
     (let k = NORMALIZE \<lparr>vx = vx (targ (cam g)) - vx (cam_pos (cam g)),
                         vy = vy (targ (cam g)) - vy (cam_pos (cam g)),
                         vz = vz (targ (cam g)) - vz (cam_pos (cam g))\<rparr>;
          i = cross_product \<lparr>vx = 0, vy = 1, vz = 0\<rparr> k;
          j = cross_product k i;
          m00 = float_of_double (vx i); m01 = float_of_double (vx j); m02 = float_of_double (vx k);
          m10 = float_of_double (vy i); m11 = float_of_double (vy j); m12 = float_of_double (vy k);
          m20 = float_of_double (vz i); m21 = float_of_double (vz j); m22 = float_of_double (vz k);
          (pt, sf1) = get_sample_pos g sf0 x y sample;
          ro = \<lparr>vx = 0, vy = 0, vz = 0\<rparr>;
          rd = \<lparr>vx = fst pt * RAY_MAG, vy = snd pt * RAY_MAG, vz = (1 / HALF_FOV) * RAY_MAG\<rparr>;
          d = \<lparr>vx = vx rd + vx ro, vy = vy rd + vy ro, vz = vz rd + vz ro\<rparr>;
          foo = \<lparr>vx = vx d * m00 + vy d * m01 + vz d * m02,
                 vy = vx d * m10 + vy d * m11 + vz d * m12,
                 vz = vx d * m20 + vy d * m21 + vz d * m22\<rparr>;
          og = \<lparr>vx = vx ro * m00 + vy ro * m01 + vz ro * m02 + vx (cam_pos (cam g)),
                vy = vx ro * m10 + vy ro * m11 + vz ro * m12 + vy (cam_pos (cam g)),
                vz = vx ro * m20 + vy ro * m21 + vz ro * m22 + vz (cam_pos (cam g))\<rparr>
      in (\<lparr>orig = og,
           dir = \<lparr>vx = vx foo + vx og, vy = vy foo + vy og, vz = vz foo + vz og\<rparr>\<rparr>, sf1))"

subsection \<open>Ray/sphere intersection\<close>

text \<open>
  \<^verbatim>\<open>ray_sphere(sph, ray, sp)\<close>. The third argument says whether \<^verbatim>\<open>sp\<close> is non-null.
  The result is the returned flag and, when the function writes through \<^verbatim>\<open>sp\<close>, the
  surface point it writes.
\<close>

definition ray_sphere :: "sphere \<Rightarrow> ray \<Rightarrow> bool \<Rightarrow> bool \<times> spoint option" where
  "ray_sphere sph r want_sp =
     (let a = SQ (vx (dir r)) + SQ (vy (dir r)) + SQ (vz (dir r));
          b = 2 * vx (dir r) * (vx (orig r) - vx (pos sph)) +
              2 * vy (dir r) * (vy (orig r) - vy (pos sph)) +
              2 * vz (dir r) * (vz (orig r) - vz (pos sph));
          c = SQ (vx (pos sph)) + SQ (vy (pos sph)) + SQ (vz (pos sph)) +
              SQ (vx (orig r)) + SQ (vy (orig r)) + SQ (vz (orig r)) +
              2 * (- vx (pos sph) * vx (orig r) - vy (pos sph) * vy (orig r)
                   - vz (pos sph) * vz (orig r)) - SQ (rad sph);
          d = SQ b - 4 * a * c
      in if d < 0 then (False, None)
         else
           (let sqrt_d = sqrt d;
                t1 = (- b + sqrt_d) / (2 * a);
                t2 = (- b - sqrt_d) / (2 * a)
            in if (t1 < ERR_MARGIN \<and> t2 < ERR_MARGIN) \<or> (t1 > 1 \<and> t2 > 1) then (False, None)
               else if want_sp then
                 (let t1' = (if t1 < ERR_MARGIN then t2 else t1);
                      t2' = (if t2 < ERR_MARGIN then t1' else t2);
                      dst = (if t1' < t2' then t1' else t2');
                      p = \<lparr>vx = vx (orig r) + vx (dir r) * dst,
                           vy = vy (orig r) + vy (dir r) * dst,
                           vz = vz (orig r) + vz (dir r) * dst\<rparr>;
                      n = \<lparr>vx = (vx p - vx (pos sph)) / rad sph,
                           vy = (vy p - vy (pos sph)) / rad sph,
                           vz = (vz p - vz (pos sph)) / rad sph\<rparr>
                  in (True, Some \<lparr>sp_pos = p, normal = n,
                                  vref = NORMALIZE (reflect (dir r) n), sp_dist = dst\<rparr>))
               else (True, None)))"

subsection \<open>trace and shade\<close>

text \<open>
  The search loop of \<^verbatim>\<open>trace\<close>. The third argument is the pair
  \<^verbatim>\<open>nearest_obj\<close>/\<^verbatim>\<open>nearest_sp\<close>, \<open>None\<close> while \<^verbatim>\<open>nearest_obj\<close> is null.
\<close>

fun nearest_loop :: "sphere list \<Rightarrow> ray \<Rightarrow> (sphere \<times> spoint) option \<Rightarrow> (sphere \<times> spoint) option" where
  "nearest_loop [] r nearest = nearest"
| "nearest_loop (iter # rest) r nearest =
     (case ray_sphere iter r True of
        (True, Some sp) \<Rightarrow>
          (case nearest of
             None \<Rightarrow> nearest_loop rest r (Some (iter, sp))
           | Some (nearest_obj, nearest_sp) \<Rightarrow>
               if sp_dist sp < sp_dist nearest_sp then nearest_loop rest r (Some (iter, sp))
               else nearest_loop rest r nearest)
      | _ \<Rightarrow> nearest_loop rest r nearest)"

text \<open>The shadow-ray loop of \<^verbatim>\<open>shade\<close>: its result is \<^verbatim>\<open>in_shadow\<close>.\<close>

fun shadow_loop :: "sphere list \<Rightarrow> ray \<Rightarrow> bool" where
  "shadow_loop [] shadow_ray = False"
| "shadow_loop (iter # rest) shadow_ray =
     (if fst (ray_sphere iter shadow_ray False) then True else shadow_loop rest shadow_ray)"

text \<open>The loop of \<^verbatim>\<open>shade\<close> over the lights, accumulating \<^verbatim>\<open>col\<close>.\<close>

fun lights_loop :: "globals \<Rightarrow> sphere \<Rightarrow> spoint \<Rightarrow> vec3 list \<Rightarrow> vec3 \<Rightarrow> vec3" where
  "lights_loop g obj sp [] c = c"
| "lights_loop g obj sp (l # ls) c =
     (let ldir = \<lparr>vx = vx l - vx (sp_pos sp), vy = vy l - vy (sp_pos sp),
                   vz = vz l - vz (sp_pos sp)\<rparr>;
          shadow_ray = \<lparr>orig = sp_pos sp, dir = ldir\<rparr>
      in if \<not> shadow_loop (obj_list g) shadow_ray then
           (let ldir = NORMALIZE ldir;
                idiff = MAX_c (DOT (normal sp) ldir) 0;
                ispec = (if spow (mat obj) > 0
                         then pow (MAX_c (DOT (vref sp) ldir) 0) (spow (mat obj)) else 0)
            in lights_loop g obj sp ls
                 \<lparr>vx = vx c + (idiff * vx (col (mat obj)) + ispec),
                  vy = vy c + (idiff * vy (col (mat obj)) + ispec),
                  vz = vz c + (idiff * vz (col (mat obj)) + ispec)\<rparr>)
         else lights_loop g obj sp ls c)"

function trace :: "globals \<Rightarrow> ray \<Rightarrow> int \<Rightarrow> vec3"
  and shade :: "globals \<Rightarrow> sphere \<Rightarrow> spoint \<Rightarrow> int \<Rightarrow> vec3" where
  "trace g r depth =
     (if depth \<ge> MAX_RAY_DEPTH then \<lparr>vx = 0, vy = 0, vz = 0\<rparr>
      else
        (case nearest_loop (obj_list g) r None of
           Some (nearest_obj, nearest_sp) \<Rightarrow> shade g nearest_obj nearest_sp depth
         | None \<Rightarrow> \<lparr>vx = 0, vy = 0, vz = 0\<rparr>))"
| "shade g obj sp depth =
     (let c = lights_loop g obj sp (lights g) \<lparr>vx = 0, vy = 0, vz = 0\<rparr>
      in if refl (mat obj) > 0 then
           (let rcol = trace g \<lparr>orig = sp_pos sp,
                                 dir = \<lparr>vx = vx (vref sp) * RAY_MAG,
                                        vy = vy (vref sp) * RAY_MAG,
                                        vz = vz (vref sp) * RAY_MAG\<rparr>\<rparr> (depth + 1)
            in \<lparr>vx = vx c + vx rcol * refl (mat obj),
                vy = vy c + vy rcol * refl (mat obj),
                vz = vz c + vz rcol * refl (mat obj)\<rparr>)
         else c)"
  by pat_completeness auto
termination
  by (relation "measure (\<lambda>a. case a of
        Inl (g, r, depth) \<Rightarrow>
          if depth \<ge> MAX_RAY_DEPTH then 0 else 2 * nat (MAX_RAY_DEPTH - depth)
      | Inr (g, obj, sp, depth) \<Rightarrow>
          if depth \<ge> MAX_RAY_DEPTH then 1 else 2 * nat (MAX_RAY_DEPTH - depth) - 1)")
    (auto simp: MAX_RAY_DEPTH_def)

subsection \<open>Rendering\<close>

text \<open>
  The loop over the samples of the pixel in column \<open>i\<close> of row \<open>sl\<close>: the sums
  \<^verbatim>\<open>r\<close>, \<^verbatim>\<open>g\<close>, \<^verbatim>\<open>b\<close> and the static \<^verbatim>\<open>sf\<close> are passed along. The loop is written
  twice in the source, in \<^verbatim>\<open>render_scanline\<close> and in \<^verbatim>\<open>render\<close>, with the same text.
\<close>

function sample_loop ::
  "globals \<Rightarrow> int \<Rightarrow> int \<Rightarrow> int \<Rightarrow> int \<Rightarrow> real \<Rightarrow> real \<Rightarrow> real \<Rightarrow> real \<Rightarrow> (real \<times> real \<times> real) \<times> real" where
  "sample_loop g i sl s samples r gr b sf0 =
     (if s < samples then
        (case get_primary_ray g sf0 i sl s of
           (pr, sf1) \<Rightarrow>
             (let c = trace g pr 0
              in sample_loop g i sl (s + 1) samples (r + vx c) (gr + vy c) (b + vz c) sf1))
      else ((r, gr, b), sf0))"
  by pat_completeness auto
termination
  by (relation "measure (\<lambda>(g, i, sl, s, samples, r, gr, b, sf0). nat (samples - s))") auto

text \<open>The packing expression, also written twice in the source with the same text.\<close>

definition pack_pixel :: "globals \<Rightarrow> real \<Rightarrow> real \<Rightarrow> real \<Rightarrow> uint32_t option" where
  "pack_pixel g r gr b =
     (case (uint32_of_double (MIN_c r 1 * 255), uint32_of_double (MIN_c gr 1 * 255),
            uint32_of_double (MIN_c b 1 * 255)) of
        (Some rw, Some gw, Some bw) \<Rightarrow>
          Some (push_bit (RSHIFT g) (rw AND 0xff) OR push_bit GSHIFT (gw AND 0xff) OR
                push_bit (BSHIFT g) (bw AND 0xff))
      | _ \<Rightarrow> None)"

text \<open>The loop of \<^verbatim>\<open>render_scanline\<close> over the columns, writing \<^verbatim>\<open>fb[sl * xsz + i]\<close>.\<close>

function scanline_loop ::
  "globals \<Rightarrow> int \<Rightarrow> int \<Rightarrow> int \<Rightarrow> int \<Rightarrow> real \<Rightarrow> rstate \<Rightarrow> rstate option" where
  "scanline_loop g i xsz sl samples rcp_samples st =
     (if i < xsz then
        (case sample_loop g i sl 0 samples 0 0 0 (sf st) of
           ((r, gr, b), sf1) \<Rightarrow>
             (case pack_pixel g (r * rcp_samples) (gr * rcp_samples) (b * rcp_samples) of
                None \<Rightarrow> None
              | Some px \<Rightarrow>
                  scanline_loop g (i + 1) xsz sl samples rcp_samples
                    \<lparr>fb = (fb st)(sl * xsz + i := px), sf = sf1\<rparr>))
      else Some st)"
  by pat_completeness auto
termination
  by (relation "measure (\<lambda>(g, i, xsz, sl, samples, rcp_samples, st). nat (xsz - i))") auto

definition render_scanline ::
  "globals \<Rightarrow> int \<Rightarrow> int \<Rightarrow> int \<Rightarrow> int \<Rightarrow> rstate \<Rightarrow> rstate option" where
  "render_scanline g xsz ysz sl samples st =
     scanline_loop g 0 xsz sl samples (1 / real_of_int samples) st"

text \<open>
  \<^verbatim>\<open>thread_func\<close> after the wait for the start flag: the worker renders the scanlines
  \<^verbatim>\<open>sl_start + i\<close> for \<^verbatim>\<open>i < sl_count\<close>.
\<close>

function thread_loop :: "globals \<Rightarrow> thread_data \<Rightarrow> int \<Rightarrow> rstate \<Rightarrow> rstate option" where
  "thread_loop g td i st =
     (if i < sl_count td then
        (case render_scanline g (xres g) (yres g) (i + sl_start td) (rays_per_pixel g) st of
           None \<Rightarrow> None
         | Some st1 \<Rightarrow> thread_loop g td (i + 1) st1)
      else Some st)"
  by pat_completeness auto
termination
  by (relation "measure (\<lambda>(g, td, i, st). nat (sl_count td - i))") auto

definition thread_func :: "globals \<Rightarrow> thread_data \<Rightarrow> rstate \<Rightarrow> rstate option" where
  "thread_func g td st = thread_loop g td 0 st"

text \<open>
  The sequential \<^verbatim>\<open>render\<close>: the inner loop over the columns of row \<open>j\<close> and the outer
  loop over the rows. \<open>p\<close> is the offset of the moving pointer \<^verbatim>\<open>fb\<close> from the start
  of the framebuffer (\<^verbatim>\<open>*fb++ = ...\<close>).
\<close>

function render_pixels ::
  "globals \<Rightarrow> int \<Rightarrow> int \<Rightarrow> int \<Rightarrow> int \<Rightarrow> real \<Rightarrow> int \<Rightarrow> rstate \<Rightarrow> (int \<times> rstate) option" where
  "render_pixels g i j xsz samples rcp_samples p st =
     (if i < xsz then
        (case sample_loop g i j 0 samples 0 0 0 (sf st) of
           ((r, gr, b), sf1) \<Rightarrow>
             (case pack_pixel g (r * rcp_samples) (gr * rcp_samples) (b * rcp_samples) of
                None \<Rightarrow> None
              | Some px \<Rightarrow>
                  render_pixels g (i + 1) j xsz samples rcp_samples (p + 1)
                    \<lparr>fb = (fb st)(p := px), sf = sf1\<rparr>))
      else Some (p, st))"
  by pat_completeness auto
termination
  by (relation "measure (\<lambda>(g, i, j, xsz, samples, rcp_samples, p, st). nat (xsz - i))") auto

function render_rows ::
  "globals \<Rightarrow> int \<Rightarrow> int \<Rightarrow> int \<Rightarrow> int \<Rightarrow> real \<Rightarrow> int \<Rightarrow> rstate \<Rightarrow> (int \<times> rstate) option" where
  "render_rows g j xsz ysz samples rcp_samples p st =
     (if j < ysz then
        (case render_pixels g 0 j xsz samples rcp_samples p st of
           None \<Rightarrow> None
         | Some (p1, st1) \<Rightarrow> render_rows g (j + 1) xsz ysz samples rcp_samples p1 st1)
      else Some (p, st))"
  by pat_completeness auto
termination
  by (relation "measure (\<lambda>(g, j, xsz, ysz, samples, rcp_samples, p, st). nat (ysz - j))") auto

definition render :: "globals \<Rightarrow> int \<Rightarrow> int \<Rightarrow> int \<Rightarrow> rstate \<Rightarrow> rstate option" where
  "render g xsz ysz samples st =
     map_option snd (render_rows g 0 xsz ysz samples (1 / real_of_int samples) 0 st)"

subsection \<open>The drivers\<close>

text \<open>
  The partition loop of \<^verbatim>\<open>cray_mt\<close> (lines 666 to 676): entry \<open>i\<close> of the thread table
  gets \<^verbatim>\<open>sl_start = (int)sl\<close> and, after \<^verbatim>\<open>sl += sl_per_thread\<close>,
  \<^verbatim>\<open>sl_count = (int)sl - sl_start\<close>. The addition is on doubles and its result is rounded
  by \<open>rnd\<close>. A failing \<^verbatim>\<open>pthread_create\<close> is not modelled.
\<close>

function sl_loop :: "(real \<Rightarrow> real) \<Rightarrow> int \<Rightarrow> int \<Rightarrow> real \<Rightarrow> real \<Rightarrow> thread_data list" where
  "sl_loop rnd i thread_num sl sl_per_thread =
     (if i < thread_num then
        \<lparr>sl_start = int_of_double sl,
         sl_count = int_of_double (rnd (sl + sl_per_thread)) - int_of_double sl\<rparr>
          # sl_loop rnd (i + 1) thread_num (rnd (sl + sl_per_thread)) sl_per_thread
      else [])"
  by pat_completeness auto
termination
  by (relation "measure (\<lambda>(rnd, i, thread_num, sl, sl_per_thread). nat (thread_num - i))") auto

text \<open>
  The thread table \<^verbatim>\<open>cray_mt\<close> builds for \<^verbatim>\<open>thread_num\<close> workers and \<^verbatim>\<open>yres\<close>
  scanlines (lines 654 to 677): the clamp of \<^verbatim>\<open>thread_num\<close> to \<^verbatim>\<open>yres\<close>, the rounded
  division \<^verbatim>\<open>(double)yres / (double)thread_num\<close> (the conversions of the two \<^verbatim>\<open>int\<close>
  values to \<^verbatim>\<open>double\<close> are exact), the loop, and the final assignment to
  \<^verbatim>\<open>threads[thread_num - 1].sl_count\<close>, which is outside the table when
  \<^verbatim>\<open>thread_num < 1\<close>.
\<close>

definition cray_mt_threads :: "(real \<Rightarrow> real) \<Rightarrow> int \<Rightarrow> int \<Rightarrow> thread_data list option" where
  "cray_mt_threads rnd thread_num0 ysz =
     (let thread_num = (if thread_num0 > ysz then ysz else thread_num0)
      in if thread_num < 1 then None
         else
           (let sl_per_thread = rnd (real_of_int ysz / real_of_int thread_num);
                threads = sl_loop rnd 0 thread_num 0 sl_per_thread;
                l = nat (thread_num - 1)
            in Some (threads[l := (threads ! l)\<lparr>sl_count := ysz - sl_start (threads ! l)\<rparr>])))"


text \<open>
  The workers of a thread table, run one after the other in table order. With one worker
  this is what \<^verbatim>\<open>cray_mt\<close> does; with several it is one of the possible schedules.
\<close>

fun run_threads :: "globals \<Rightarrow> thread_data list \<Rightarrow> rstate \<Rightarrow> rstate option" where
  "run_threads g [] st = Some st"
| "run_threads g (td # tds) st =
     (case thread_func g td st of None \<Rightarrow> None | Some st1 \<Rightarrow> run_threads g tds st1)"

text \<open>
  The rendering part of \<^verbatim>\<open>cray_mt\<close> and of \<^verbatim>\<open>cray_f\<close>, once the scene is loaded, the
  jitter tables are filled and \<^verbatim>\<open>xres\<close>, \<^verbatim>\<open>yres\<close>, \<^verbatim>\<open>rays_per_pixel\<close> are set. \<open>rnd\<close>
  is the rounding of the doubles in the partition.
\<close>

definition cray_mt_render :: "(real \<Rightarrow> real) \<Rightarrow> globals \<Rightarrow> int \<Rightarrow> rstate \<Rightarrow> rstate option" where
  "cray_mt_render rnd g thread_num st =
     (case cray_mt_threads rnd thread_num (yres g) of
        None \<Rightarrow> None
      | Some threads \<Rightarrow> run_threads g threads st)"

definition cray_f_render :: "globals \<Rightarrow> rstate \<Rightarrow> rstate option" where
  "cray_f_render g st = render g (xres g) (yres g) (rays_per_pixel g) st"

subsection \<open>Auxiliary notions for the statements\<close>

text \<open>
  The properties of rounding to \<^verbatim>\<open>double\<close> that the partition relies on: on the
  non-negative numbers rounding is monotone and leaves rounded values unchanged, it is exact
  on the integers from 0 to \<open>2 ^ 53\<close>, and it has a relative error of at most \<open>1 / 2 ^ 53\<close>
  between 1 and \<open>2 ^ 53\<close>.
\<close>

definition fp_rounding :: "(real \<Rightarrow> real) \<Rightarrow> bool" where
  "fp_rounding rnd \<longleftrightarrow>
     (\<forall>x y. 0 \<le> x \<and> x \<le> y \<longrightarrow> rnd x \<le> rnd y) \<and>
     (\<forall>x. 0 \<le> x \<longrightarrow> rnd (rnd x) = rnd x) \<and>
     (\<forall>k::int. 0 \<le> k \<and> k \<le> 2 ^ 53 \<longrightarrow> rnd (real_of_int k) = real_of_int k) \<and>
     (\<forall>x. 1 \<le> x \<and> x \<le> 2 ^ 53 \<longrightarrow> \<bar>rnd x - x\<bar> \<le> x / 2 ^ 53)"

text \<open>
  \<open>sl_after rnd spt k\<close> is the value of \<^verbatim>\<open>sl\<close> after \<open>k\<close> rounded additions of \<open>spt\<close>.
  \<open>boundary rnd yres thread_num k\<close> is the scanline at which worker \<open>k\<close> starts, and the
  height for \<open>k = thread_num\<close>. \<open>share\<close> is the boundary \<open>\<lfloor>k * yres / thread_num\<rfloor>\<close> of
  exact arithmetic.
\<close>

definition sl_after :: "(real \<Rightarrow> real) \<Rightarrow> real \<Rightarrow> nat \<Rightarrow> real" where
  "sl_after rnd spt k = ((\<lambda>x. rnd (x + spt)) ^^ k) 0"

definition boundary :: "(real \<Rightarrow> real) \<Rightarrow> int \<Rightarrow> int \<Rightarrow> nat \<Rightarrow> int" where
  "boundary rnd ysz thread_num k =
     (if k < nat thread_num
      then int_of_double (sl_after rnd (rnd (real_of_int ysz / real_of_int thread_num)) k)
      else ysz)"

definition share :: "int \<Rightarrow> int \<Rightarrow> nat \<Rightarrow> int" where
  "share ysz thread_num k = (int k * ysz) div thread_num"

text \<open>
  The coefficients of the intersection quadratic \<open>a * t * t + b * t + c = 0\<close> as \<^verbatim>\<open>ray_sphere\<close>
  computes them, its discriminant, and its two roots (\<open>root_hi\<close> is \<^verbatim>\<open>t1\<close>, with
  \<open>+ sqrt\<close>; \<open>root_lo\<close> is \<^verbatim>\<open>t2\<close>).
\<close>

definition quad_a :: "ray \<Rightarrow> real" where
  "quad_a r = SQ (vx (dir r)) + SQ (vy (dir r)) + SQ (vz (dir r))"

definition quad_b :: "sphere \<Rightarrow> ray \<Rightarrow> real" where
  "quad_b sph r =
     2 * vx (dir r) * (vx (orig r) - vx (pos sph)) +
     2 * vy (dir r) * (vy (orig r) - vy (pos sph)) +
     2 * vz (dir r) * (vz (orig r) - vz (pos sph))"

definition quad_c :: "sphere \<Rightarrow> ray \<Rightarrow> real" where
  "quad_c sph r =
     SQ (vx (pos sph)) + SQ (vy (pos sph)) + SQ (vz (pos sph)) +
     SQ (vx (orig r)) + SQ (vy (orig r)) + SQ (vz (orig r)) +
     2 * (- vx (pos sph) * vx (orig r) - vy (pos sph) * vy (orig r)
          - vz (pos sph) * vz (orig r)) - SQ (rad sph)"

definition quad_d :: "sphere \<Rightarrow> ray \<Rightarrow> real" where
  "quad_d sph r = SQ (quad_b sph r) - 4 * quad_a r * quad_c sph r"

definition root_hi :: "sphere \<Rightarrow> ray \<Rightarrow> real" where
  "root_hi sph r = (- quad_b sph r + sqrt (quad_d sph r)) / (2 * quad_a r)"

definition root_lo :: "sphere \<Rightarrow> ray \<Rightarrow> real" where
  "root_lo sph r = (- quad_b sph r - sqrt (quad_d sph r)) / (2 * quad_a r)"

definition is_root :: "sphere \<Rightarrow> ray \<Rightarrow> real \<Rightarrow> bool" where
  "is_root sph r t \<longleftrightarrow> quad_a r * t * t + quad_b sph r * t + quad_c sph r = 0"

text \<open>The surface point \<^verbatim>\<open>ray_sphere\<close> writes for the parametric distance \<open>t\<close>.\<close>

definition hit_point :: "sphere \<Rightarrow> ray \<Rightarrow> real \<Rightarrow> spoint" where
  "hit_point sph r t =
     (let p = \<lparr>vx = vx (orig r) + vx (dir r) * t,
               vy = vy (orig r) + vy (dir r) * t,
               vz = vz (orig r) + vz (dir r) * t\<rparr>;
          n = \<lparr>vx = (vx p - vx (pos sph)) / rad sph,
               vy = (vy p - vy (pos sph)) / rad sph,
               vz = (vz p - vz (pos sph)) / rad sph\<rparr>
      in \<lparr>sp_pos = p, normal = n, vref = NORMALIZE (reflect (dir r) n), sp_dist = t\<rparr>)"

text \<open>A colour or a material without a negative component.\<close>

definition nonneg :: "vec3 \<Rightarrow> bool" where
  "nonneg v \<longleftrightarrow> 0 \<le> vx v \<and> 0 \<le> vy v \<and> 0 \<le> vz v"

definition nonneg_material :: "material \<Rightarrow> bool" where
  "nonneg_material m \<longleftrightarrow> nonneg (col m) \<and> 0 \<le> spow m \<and> 0 \<le> refl m"

text \<open>
  The parametric distance of the surface point that \<^verbatim>\<open>trace\<close> hands to \<^verbatim>\<open>shade\<close>
  for a list of spheres, \<open>None\<close> when it shades nothing.
\<close>

definition shaded_distance :: "sphere list \<Rightarrow> ray \<Rightarrow> real option" where
  "shaded_distance objs r = map_option (\<lambda>(obj, sp). sp_dist sp) (nearest_loop objs r None)"

text \<open>
  The shading formula in the words of the specification, to be compared with \<open>shade\<close>:
  the contribution of one light is nothing when some sphere of the scene intersects the
  shadow ray from the surface position along the unnormalised vector to the light, and
  otherwise \<open>max (normal \<cdot> light_dir) 0 * colour + specular\<close> per channel, with the
  normalised light direction; \<open>shade_spec\<close> is the sum of the contributions of all lights
  plus, for a reflective material, the reflectivity times the colour traced along the view
  reflection scaled by the trace magnitude, one level deeper.
\<close>

definition light_contribution :: "globals \<Rightarrow> sphere \<Rightarrow> spoint \<Rightarrow> vec3 \<Rightarrow> vec3" where
  "light_contribution g obj sp l =
     (let to_light = \<lparr>vx = vx l - vx (sp_pos sp), vy = vy l - vy (sp_pos sp),
                       vz = vz l - vz (sp_pos sp)\<rparr>
      in if (\<exists>s\<in>set (obj_list g). fst (ray_sphere s \<lparr>orig = sp_pos sp, dir = to_light\<rparr> False))
         then \<lparr>vx = 0, vy = 0, vz = 0\<rparr>
         else
           (let light_dir = NORMALIZE to_light;
                diffuse = max (DOT (normal sp) light_dir) 0;
                specular = (if spow (mat obj) > 0
                            then (max (DOT (vref sp) light_dir) 0) powr (spow (mat obj)) else 0)
            in \<lparr>vx = diffuse * vx (col (mat obj)) + specular,
                vy = diffuse * vy (col (mat obj)) + specular,
                vz = diffuse * vz (col (mat obj)) + specular\<rparr>))"

definition shade_spec :: "globals \<Rightarrow> sphere \<Rightarrow> spoint \<Rightarrow> int \<Rightarrow> vec3" where
  "shade_spec g obj sp depth =
     (let direct = \<lparr>vx = (\<Sum>l\<leftarrow>lights g. vx (light_contribution g obj sp l)),
                    vy = (\<Sum>l\<leftarrow>lights g. vy (light_contribution g obj sp l)),
                    vz = (\<Sum>l\<leftarrow>lights g. vz (light_contribution g obj sp l))\<rparr>;
          reflected =
            (if refl (mat obj) > 0 then
               (let rc = trace g \<lparr>orig = sp_pos sp,
                                  dir = \<lparr>vx = RAY_MAG * vx (vref sp),
                                         vy = RAY_MAG * vy (vref sp),
                                         vz = RAY_MAG * vz (vref sp)\<rparr>\<rparr> (depth + 1)
                in \<lparr>vx = refl (mat obj) * vx rc, vy = refl (mat obj) * vy rc,
                    vz = refl (mat obj) * vz rc\<rparr>)
             else \<lparr>vx = 0, vy = 0, vz = 0\<rparr>)
      in \<lparr>vx = vx direct + vx reflected, vy = vy direct + vy reflected,
          vz = vz direct + vz reflected\<rparr>)"







subsection \<open>Concrete inputs\<close>

text \<open>
  A unit sphere at the origin with a white, matt, non-reflective material, a scene that
  holds it, and a ray from \<open>(-3, 0, 0)\<close> along \<open>(4, 0, 0)\<close> that meets it at parametric
  distance \<open>1/2\<close>, in \<open>demo_point\<close>.
\<close>

definition demo_sphere :: sphere where
  "demo_sphere = \<lparr>pos = \<lparr>vx = 0, vy = 0, vz = 0\<rparr>, rad = 1,
                mat = \<lparr>col = \<lparr>vx = 1, vy = 1, vz = 1\<rparr>, spow = 0, refl = 0\<rparr>\<rparr>"

definition demo_scene :: globals where
  "demo_scene = \<lparr>xres = 2, yres = 2, rays_per_pixel = 1, obj_list = [demo_sphere], lights = [],
          cam = \<lparr>cam_pos = \<lparr>vx = 0, vy = 0, vz = - 5\<rparr>, targ = \<lparr>vx = 0, vy = 0, vz = 0\<rparr>, fov = 45\<rparr>,
          urand = replicate NRAN \<lparr>vx = 0, vy = 0, vz = 0\<rparr>, irand = replicate NRAN 0,
          little_endian = True\<rparr>"

definition demo_ray :: ray where
  "demo_ray = \<lparr>orig = \<lparr>vx = - 3, vy = 0, vz = 0\<rparr>, dir = \<lparr>vx = 4, vy = 0, vz = 0\<rparr>\<rparr>"

definition demo_point :: spoint where
  "demo_point = \<lparr>sp_pos = \<lparr>vx = - 1, vy = 0, vz = 0\<rparr>, normal = \<lparr>vx = - 1, vy = 0, vz = 0\<rparr>,
                    vref = \<lparr>vx = - 1, vy = 0, vz = 0\<rparr>, sp_dist = 1 / 2\<rparr>"

text \<open>An all-zero framebuffer with the static \<^verbatim>\<open>sf\<close> still at its initial value 0.\<close>

definition blank_fb :: "int \<Rightarrow> uint32_t" where
  "blank_fb p = 0"

definition blank_state :: rstate where
  "blank_state = \<lparr>fb = blank_fb, sf = 0\<rparr>"





text \<open>
  A sphere of radius 2 around the origin and a ray that starts at its centre: the roots of
  the intersection quadratic are \<open>-2\<close> and \<open>2\<close>.
\<close>

definition wide_sphere :: sphere where
  "wide_sphere = \<lparr>pos = \<lparr>vx = 0, vy = 0, vz = 0\<rparr>, rad = 2,
                mat = \<lparr>col = \<lparr>vx = 1, vy = 1, vz = 1\<rparr>, spow = 0, refl = 0\<rparr>\<rparr>"

definition inner_ray :: ray where
  "inner_ray = \<lparr>orig = \<lparr>vx = 0, vy = 0, vz = 0\<rparr>, dir = \<lparr>vx = 1, vy = 0, vz = 0\<rparr>\<rparr>"

section \<open>Properties\<close>

subsection \<open>Rounding\<close>

lemma round_even_int: "round_even (real_of_int m) = m"
  by (simp add: round_even_def)

lemma round_even_range: "\<lfloor>y\<rfloor> \<le> round_even y \<and> round_even y \<le> \<lfloor>y\<rfloor> + 1"
  by (simp add: round_even_def Let_def)

lemma round_even_mono:
  assumes "x \<le> y"
  shows "round_even x \<le> round_even y"
proof (cases "\<lfloor>x\<rfloor> = \<lfloor>y\<rfloor>")
  case True
  with assms show ?thesis by (simp add: round_even_def Let_def)
next
  case False
  with assms have "\<lfloor>x\<rfloor> < \<lfloor>y\<rfloor>" using floor_mono [OF assms] by linarith
  with round_even_range [of x] round_even_range [of y] show ?thesis by linarith
qed

lemma round_even_err: "\<bar>real_of_int (round_even y) - y\<bar> \<le> 1 / 2"
proof -
  have "real_of_int \<lfloor>y\<rfloor> \<le> y" "y < real_of_int \<lfloor>y\<rfloor> + 1" by linarith+
  then show ?thesis by (auto simp: round_even_def Let_def)
qed

lemma grid_round_mono: "x \<le> y \<Longrightarrow> grid_round e x \<le> grid_round e y"
  unfolding grid_round_def
  by (intro mult_right_mono) (simp_all add: round_even_mono divide_right_mono)

lemma pow2_int: "0 \<le> d \<Longrightarrow> 2 powr real_of_int d = real_of_int (2 ^ nat d)"
  by (simp add: powr_realpow [symmetric])

text \<open>A multiple of \<open>2 ^ e'\<close> is a multiple of \<open>2 ^ e\<close> for \<open>e \<le> e'\<close>, and rounding keeps it.\<close>

lemma grid_round_fixed:
  assumes "e \<le> e'"
  shows "grid_round e (real_of_int m * 2 powr real_of_int e') = real_of_int m * 2 powr real_of_int e'"
proof -
  have "2 powr real_of_int e' = 2 powr real_of_int (e' - e) * 2 powr real_of_int e"
    by (simp add: powr_add [symmetric])
  also have "2 powr real_of_int (e' - e) = real_of_int (2 ^ nat (e' - e))"
    using assms by (intro pow2_int) simp
  finally have p: "2 powr real_of_int e' = real_of_int (2 ^ nat (e' - e)) * 2 powr real_of_int e" .
  have "real_of_int m * 2 powr real_of_int e' / 2 powr real_of_int e
          = real_of_int (m * 2 ^ nat (e' - e))"
    by (simp add: p)
  then have "round_even (real_of_int m * 2 powr real_of_int e' / 2 powr real_of_int e)
          = m * 2 ^ nat (e' - e)"
    by (simp only: round_even_int)
  then show ?thesis by (simp add: grid_round_def p)
qed

lemma grid_round_nonneg: "0 \<le> x \<Longrightarrow> 0 \<le> grid_round e x"
  using grid_round_mono [of 0 x e] grid_round_fixed [of e e 0] by simp

lemma grid_round_err: "\<bar>grid_round e x - x\<bar> \<le> 2 powr real_of_int e / 2"
proof -
  let ?u = "2 powr real_of_int e"
  have "grid_round e x - x = (real_of_int (round_even (x / ?u)) - x / ?u) * ?u"
    by (simp add: grid_round_def algebra_simps)
  then have "\<bar>grid_round e x - x\<bar> = \<bar>real_of_int (round_even (x / ?u)) - x / ?u\<bar> * ?u"
    by (simp add: abs_mult)
  also have "\<dots> \<le> 1 / 2 * ?u"
    using round_even_err [of "x / ?u"] by (intro mult_right_mono) simp_all
  finally show ?thesis by simp
qed

lemma ieee_round_grid: "x \<noteq> 0 \<Longrightarrow> ieee_round p emin x = grid_round (ulp_exponent p emin x) x"
  by (simp add: ieee_round_def)

lemma ieee_round_0: "ieee_round p emin 0 = 0"
  by (simp add: ieee_round_def)

lemma floor_log_le: "0 < x \<Longrightarrow> 2 powr real_of_int \<lfloor>log 2 x\<rfloor> \<le> x"
  using floor_log_eq_powr_iff [of x 2 "\<lfloor>log 2 x\<rfloor>"] by simp

lemma floor_log_gt: "0 < x \<Longrightarrow> x < 2 powr real_of_int (\<lfloor>log 2 x\<rfloor> + 1)"
  using floor_log_eq_powr_iff [of x 2 "\<lfloor>log 2 x\<rfloor>"] by simp

lemma floor_log_less: "0 < x \<Longrightarrow> x < 2 powr real_of_int k \<Longrightarrow> \<lfloor>log 2 x\<rfloor> < k"
  by (simp add: floor_less_iff less_powr_iff)

lemma ieee_round_nonneg: "0 \<le> x \<Longrightarrow> 0 \<le> ieee_round p emin x"
  by (cases "x = 0") (simp_all add: ieee_round_0 ieee_round_grid grid_round_nonneg)

text \<open>
  Rounding is monotone on the non-negative numbers: within one binade it rounds on one grid,
  and between two binades lies a power of two that both grids contain.
\<close>

lemma ieee_round_mono:
  assumes p: "1 \<le> p" and x: "0 \<le> x" "x \<le> y"
  shows "ieee_round p emin x \<le> ieee_round p emin y"
proof (cases "x = 0")
  case True
  with x show ?thesis by (simp add: ieee_round_0 ieee_round_nonneg)
next
  case False
  with x have x0: "0 < x" and y0: "0 < y" by simp_all
  let ?E = "\<lfloor>log 2 y\<rfloor>"
  have le: "\<lfloor>log 2 x\<rfloor> \<le> ?E" using x0 x(2) by (intro floor_mono) simp
  show ?thesis
  proof (cases "ulp_exponent p emin x = ulp_exponent p emin y")
    case True
    with x0 y0 x(2) show ?thesis by (simp add: ieee_round_grid grid_round_mono)
  next
    case ne: False
    with le x0 y0 have E: "emin < ?E" "\<lfloor>log 2 x\<rfloor> < ?E"
      by (auto simp: ulp_exponent_def max_def split: if_splits)
    let ?B = "real_of_int 1 * 2 powr real_of_int ?E"
    have xB: "x \<le> ?B"
    proof -
      have "x < 2 powr real_of_int (\<lfloor>log 2 x\<rfloor> + 1)" using x0 by (rule floor_log_gt)
      also have "\<dots> \<le> 2 powr real_of_int ?E" using E(2) by simp
      finally show ?thesis by simp
    qed
    have By: "?B \<le> y" using floor_log_le [OF y0] by simp
    have ex: "ulp_exponent p emin x \<le> ?E" using E x0 p by (simp add: ulp_exponent_def)
    have ey: "ulp_exponent p emin y \<le> ?E" using E y0 p by (simp add: ulp_exponent_def)
    have "ieee_round p emin x = grid_round (ulp_exponent p emin x) x"
      using x0 by (simp add: ieee_round_grid)
    also have "\<dots> \<le> grid_round (ulp_exponent p emin x) ?B" using xB by (rule grid_round_mono)
    also have "\<dots> = ?B" using ex by (rule grid_round_fixed)
    also have "\<dots> = grid_round (ulp_exponent p emin y) ?B"
      using ey by (rule grid_round_fixed [symmetric])
    also have "\<dots> \<le> grid_round (ulp_exponent p emin y) y" using By by (rule grid_round_mono)
    also have "\<dots> = ieee_round p emin y" using y0 by (simp add: ieee_round_grid)
    finally show ?thesis .
  qed
qed

lemma ieee_round_fixed:
  assumes "0 < real_of_int m * 2 powr real_of_int e'"
    and "ulp_exponent p emin (real_of_int m * 2 powr real_of_int e') \<le> e'"
  shows "ieee_round p emin (real_of_int m * 2 powr real_of_int e') = real_of_int m * 2 powr real_of_int e'"
proof -
  from assms(1) have "real_of_int m * 2 powr real_of_int e' \<noteq> 0" by linarith
  then have "ieee_round p emin (real_of_int m * 2 powr real_of_int e')
      = grid_round (ulp_exponent p emin (real_of_int m * 2 powr real_of_int e'))
          (real_of_int m * 2 powr real_of_int e')" by (rule ieee_round_grid)
  also have "\<dots> = real_of_int m * 2 powr real_of_int e'"
    using assms(2) by (rule grid_round_fixed)
  finally show ?thesis .
qed

lemma ieee_round_idem:
  assumes p: "1 \<le> p" and x: "0 \<le> x"
  shows "ieee_round p emin (ieee_round p emin x) = ieee_round p emin x"
proof (cases "x = 0")
  case True
  then show ?thesis by (simp add: ieee_round_0)
next
  case False
  with x have x0: "0 < x" by simp
  let ?Ex = "max \<lfloor>log 2 x\<rfloor> emin"
  let ?e = "ulp_exponent p emin x"
  let ?m = "round_even (x / 2 powr real_of_int ?e)"
  let ?r = "ieee_round p emin x"
  have e: "?e = ?Ex - (int p - 1)" using x0 by (simp add: ulp_exponent_def)
  have r: "?r = real_of_int ?m * 2 powr real_of_int ?e"
    using x0 by (simp add: ieee_round_grid grid_round_def)
  have r0: "0 \<le> ?r" using x by (rule ieee_round_nonneg)
  let ?T = "real_of_int 1 * 2 powr real_of_int (?Ex + 1)"
  have xT: "x \<le> ?T"
  proof -
    have "x < 2 powr real_of_int (\<lfloor>log 2 x\<rfloor> + 1)" using x0 by (rule floor_log_gt)
    also have "\<dots> \<le> 2 powr real_of_int (?Ex + 1)" by simp
    finally show ?thesis by simp
  qed
  have eT: "?e \<le> ?Ex + 1" using p by (simp add: e)
  have "?r = grid_round ?e x" using x0 by (simp add: ieee_round_grid)
  also have "\<dots> \<le> grid_round ?e ?T" using xT by (rule grid_round_mono)
  also have "\<dots> = ?T" using eT by (rule grid_round_fixed)
  finally have rT: "?r \<le> ?T" .
  show ?thesis
  proof (cases "?r = 0")
    case True
    then show ?thesis by (simp add: ieee_round_0)
  next
    case False
    with r0 have rpos: "0 < ?r" by simp
    show ?thesis
    proof (cases "?r = ?T")
      case True
      have "\<lfloor>log 2 ?T\<rfloor> = ?Ex + 1" by (simp add: floor_log_eq_powr_iff)
      then have "ulp_exponent p emin ?T = ?Ex + 1 - (int p - 1)" by (simp add: ulp_exponent_def)
      then have "ulp_exponent p emin ?T \<le> ?Ex + 1" using p by simp
      moreover have "0 < ?T" by simp
      ultimately have "ieee_round p emin ?T = ?T" by (rule ieee_round_fixed [rotated])
      with True show ?thesis by simp
    next
      case F: False
      with rT have lt: "?r < 2 powr real_of_int (?Ex + 1)" by simp
      have "\<lfloor>log 2 ?r\<rfloor> < ?Ex + 1" using rpos lt by (rule floor_log_less)
      moreover have "\<bar>?r\<bar> = ?r" "\<bar>x\<bar> = x" using rpos x0 by simp_all
      ultimately have "ulp_exponent p emin ?r \<le> ?e" unfolding ulp_exponent_def by (simp only:)
      then have "ulp_exponent p emin (real_of_int ?m * 2 powr real_of_int ?e) \<le> ?e" by (simp only: r)
      moreover have "0 < real_of_int ?m * 2 powr real_of_int ?e" using rpos by (simp only: r)
      ultimately have "ieee_round p emin (real_of_int ?m * 2 powr real_of_int ?e)
          = real_of_int ?m * 2 powr real_of_int ?e" by (rule ieee_round_fixed [rotated])
      then show ?thesis by (simp only: r [symmetric])
    qed
  qed
qed

lemma double_round_int:
  assumes "0 \<le> k" "k \<le> 2 ^ 53"
  shows "double_round (real_of_int k) = real_of_int k"
proof (cases "k = 0")
  case True
  then show ?thesis by (simp add: double_round_def ieee_round_0)
next
  case False
  with assms have k1: "1 \<le> k" by simp
  then have k0: "0 < real_of_int k" by simp
  show ?thesis
  proof (cases "k = 2 ^ 53")
    case True
    have k: "real_of_int k = real_of_int (2 ^ 52) * 2 powr real_of_int 1" by (simp add: True)
    have "\<lfloor>log 2 (real_of_int k)\<rfloor> = 53"
      by (simp add: True floor_log_eq_powr_iff)
    then have "ulp_exponent 53 (- 1022) (real_of_int k) = 1" using k0 by (simp add: ulp_exponent_def)
    then have "ulp_exponent 53 (- 1022) (real_of_int (2 ^ 52) * 2 powr real_of_int 1) \<le> 1"
      by (simp only: k [symmetric])
    moreover have "0 < real_of_int (2 ^ 52) * 2 powr real_of_int 1" by simp
    ultimately have "ieee_round 53 (- 1022) (real_of_int (2 ^ 52) * 2 powr real_of_int 1)
        = real_of_int (2 ^ 52) * 2 powr real_of_int 1" by (rule ieee_round_fixed [rotated])
    then show ?thesis by (simp only: double_round_def k [symmetric])
  next
    case F: False
    with assms have "real_of_int k < 2 ^ 53"
      by (metis less_le of_int_less_iff of_int_numeral of_int_power)
    then have "real_of_int k < 2 powr real_of_int 53" by simp
    with k0 have "\<lfloor>log 2 (real_of_int k)\<rfloor> < 53" by (rule floor_log_less)
    moreover have "0 \<le> \<lfloor>log 2 (real_of_int k)\<rfloor>" using k1 by simp
    ultimately have "ulp_exponent 53 (- 1022) (real_of_int k) \<le> 0"
      using k0 by (simp add: ulp_exponent_def)
    then have "ulp_exponent 53 (- 1022) (real_of_int k * 2 powr real_of_int 0) \<le> 0" by simp
    moreover have "0 < real_of_int k * 2 powr real_of_int 0" using k0 by simp
    ultimately have "ieee_round 53 (- 1022) (real_of_int k * 2 powr real_of_int 0)
        = real_of_int k * 2 powr real_of_int 0" by (rule ieee_round_fixed [rotated])
    then show ?thesis by (simp add: double_round_def)
  qed
qed

lemma double_round_err:
  assumes "1 \<le> x"
  shows "\<bar>double_round x - x\<bar> \<le> x / 2 ^ 53"
proof -
  have x0: "0 < x" using assms by simp
  let ?E = "\<lfloor>log 2 x\<rfloor>"
  have E0: "0 \<le> ?E" using assms by simp
  then have "max ?E (- 1022) = ?E" by linarith
  then have e: "ulp_exponent 53 (- 1022) x = ?E - 52" using x0 by (simp add: ulp_exponent_def)
  have "\<bar>double_round x - x\<bar> \<le> 2 powr real_of_int (?E - 52) / 2"
    using x0 grid_round_err [of "?E - 52" x] by (simp add: double_round_def ieee_round_grid e)
  also have "2 powr real_of_int (?E - 52) / 2 = 2 powr real_of_int ?E / 2 ^ 53"
    by (simp add: powr_diff)
  also have "\<dots> \<le> x / 2 ^ 53"
    using floor_log_le [OF x0] by (intro divide_right_mono) simp_all
  finally show ?thesis .
qed

text \<open>The value of \<open>round_even\<close> and of \<open>double_round\<close> at a given number.\<close>

lemma round_even_near: "\<bar>y - real_of_int m\<bar> < 1 / 2 \<Longrightarrow> round_even y = m"
proof -
  assume a: "\<bar>y - real_of_int m\<bar> < 1 / 2"
  show ?thesis
  proof (cases "real_of_int m \<le> y")
    case True
    with a have "\<lfloor>y\<rfloor> = m" by (intro floor_unique) linarith+
    moreover from a True have "y - real_of_int m < 1 / 2" by linarith
    ultimately show ?thesis by (simp add: round_even_def Let_def)
  next
    case False
    with a have "real_of_int m - 1 \<le> y" "y < real_of_int m" by linarith+
    then have f: "\<lfloor>y\<rfloor> = m - 1" by (intro floor_unique) simp_all
    from a False have "1 / 2 < y - real_of_int (m - 1)" by simp
    with f show ?thesis by (simp add: round_even_def Let_def)
  qed
qed

lemma round_even_tie: "y = real_of_int m - 1 / 2 \<Longrightarrow> even m \<Longrightarrow> round_even y = m"
proof -
  assume y: "y = real_of_int m - 1 / 2" and e: "even m"
  have f: "\<lfloor>y\<rfloor> = m - 1" unfolding y by (intro floor_unique) simp_all
  have "y - real_of_int (m - 1) = 1 / 2" unfolding y by simp
  with f e show ?thesis by (simp add: round_even_def Let_def)
qed

lemma double_round_at:
  assumes "2 ^ E \<le> x" "x < 2 ^ Suc E" "E \<le> 52" "round_even (x * 2 ^ (52 - E)) = m"
  shows "double_round x = real_of_int m / 2 ^ (52 - E)"
proof -
  have x0: "0 < x" using assms(1) by (smt (verit) zero_less_power)
  have "2 powr real_of_int (int E) \<le> x" "x < 2 powr (real_of_int (int E) + 1)"
    using assms(1,2) by (simp_all add: powr_realpow powr_add)
  then have "\<lfloor>log 2 x\<rfloor> = int E" using x0 by (simp add: floor_log_eq_powr_iff)
  then have e: "ulp_exponent 53 (- 1022) x = int E - 52" using x0 by (simp add: ulp_exponent_def)
  have "2 powr (real E - 52) = 2 powr (- real (52 - E))"
    using assms(3) by simp
  also have "\<dots> = 1 / 2 ^ (52 - E)" by (simp add: powr_minus_divide powr_realpow)
  finally have p: "2 powr (real E - 52) = 1 / 2 ^ (52 - E)" .
  show ?thesis using x0 assms(4) by (simp add: double_round_def ieee_round_def e grid_round_def p)
qed

text \<open>
  Rounding to \<^verbatim>\<open>double\<close> has the properties the partition relies on, and so has the
  identity, which is exact arithmetic.
\<close>

lemma fp_rounding_double: "fp_rounding double_round"
  unfolding fp_rounding_def
proof (intro conjI allI impI)
  fix x y :: real assume "0 \<le> x \<and> x \<le> y"
  then show "double_round x \<le> double_round y"
    by (simp add: double_round_def ieee_round_mono)
next
  fix x :: real assume "0 \<le> x"
  then show "double_round (double_round x) = double_round x"
    by (simp add: double_round_def ieee_round_idem)
next
  fix k :: int assume "0 \<le> k \<and> k \<le> 2 ^ 53"
  then show "double_round (real_of_int k) = real_of_int k"
    by (simp add: double_round_int)
next
  fix x :: real assume "1 \<le> x \<and> x \<le> 2 ^ 53"
  then have "1 \<le> x" by simp
  then show "\<bar>double_round x - x\<bar> \<le> x / 2 ^ 53"
    by (rule double_round_err)
qed

lemma fp_rounding_exact: "fp_rounding (\<lambda>x. x)"
  by (simp add: fp_rounding_def)



lemma rnd_upper:
  assumes "fp_rounding rnd" "1 \<le> x" "x \<le> 2 ^ 53"
  shows "rnd x \<le> x * (1 + 1 / 2 ^ 53)"
proof -
  from assms have "\<bar>rnd x - x\<bar> \<le> x / 2 ^ 53" by (simp add: fp_rounding_def)
  then have "rnd x \<le> x + x / 2 ^ 53" by linarith
  then show ?thesis by (simp add: algebra_simps)
qed

lemma rnd_err:
  "fp_rounding rnd \<Longrightarrow> 1 \<le> x \<Longrightarrow> x \<le> 2 ^ 53 \<Longrightarrow> \<bar>rnd x - x\<bar> \<le> x / 2 ^ 53"
  by (simp add: fp_rounding_def)

lemma rnd_int:
  "fp_rounding rnd \<Longrightarrow> 0 \<le> k \<Longrightarrow> k \<le> 2 ^ 53 \<Longrightarrow> rnd (real_of_int k) = real_of_int k"
  by (simp add: fp_rounding_def)

lemma rnd_mono: "fp_rounding rnd \<Longrightarrow> 0 \<le> x \<Longrightarrow> x \<le> y \<Longrightarrow> rnd x \<le> rnd y"
  by (simp add: fp_rounding_def)

lemma rnd_idem: "fp_rounding rnd \<Longrightarrow> 0 \<le> x \<Longrightarrow> rnd (rnd x) = rnd x"
  by (simp add: fp_rounding_def)

lemma rnd_0: "fp_rounding rnd \<Longrightarrow> rnd 0 = 0"
  using rnd_int [of rnd 0] by simp

lemma rnd_1: "fp_rounding rnd \<Longrightarrow> rnd 1 = 1"
  using rnd_int [of rnd 1] by simp

subsection \<open>The scanline partition: the thread table\<close>

declare sl_loop.simps [simp del]

lemma sl_loop_length: "length (sl_loop rnd i n sl spt) = nat (n - i)"
proof (induction rnd i n sl spt rule: sl_loop.induct)
  case (1 rnd i n sl spt)
  show ?case
  proof (cases "i < n")
    case True
    with 1 have "length (sl_loop rnd (i + 1) n (rnd (sl + spt)) spt) = nat (n - (i + 1))" by simp
    with True show ?thesis
      by (subst sl_loop.simps) (simp add: nat_diff_distrib Suc_nat_eq_nat_zadd1)
  next
    case False
    then show ?thesis by (subst sl_loop.simps) simp
  qed
qed

lemma sl_loop_nth:
  "k < nat (n - i) \<Longrightarrow>
   sl_loop rnd i n sl spt ! k =
     \<lparr>sl_start = int_of_double (((\<lambda>x. rnd (x + spt)) ^^ k) sl),
      sl_count = int_of_double (((\<lambda>x. rnd (x + spt)) ^^ Suc k) sl)
                 - int_of_double (((\<lambda>x. rnd (x + spt)) ^^ k) sl)\<rparr>"
proof (induction rnd i n sl spt arbitrary: k rule: sl_loop.induct)
  case (1 rnd i n sl spt)
  from "1.prems" have lt: "i < n" by simp
  show ?case
  proof (cases k)
    case 0
    with lt show ?thesis by (subst sl_loop.simps) simp
  next
    case (Suc k')
    with "1.prems" have "k' < nat (n - (i + 1))" by simp
    note ih = "1.IH" [OF lt this]
    have sw: "((\<lambda>x. rnd (x + spt)) ^^ k') (rnd (sl + spt)) = rnd (((\<lambda>x. rnd (x + spt)) ^^ k') sl + spt)"
      using funpow_swap1 [of "\<lambda>x. rnd (x + spt)" k' sl] by simp
    from ih lt Suc show ?thesis
      by (subst sl_loop.simps) (simp add: sw)
  qed
qed

text \<open>
  The table after the fix-up of the last count, for any rounding: worker \<open>k\<close> gets the
  scanlines from \<open>boundary k\<close> up to \<open>boundary (k + 1)\<close>.
\<close>

lemma cray_mt_threads_boundary:
  assumes "1 \<le> n" "n \<le> h"
  shows "cray_mt_threads rnd n h =
           Some (map (\<lambda>k. \<lparr>sl_start = boundary rnd h n k,
                           sl_count = boundary rnd h n (Suc k) - boundary rnd h n k\<rparr>) [0..<nat n])"
proof -
  let ?spt = "rnd (real_of_int h / real_of_int n)"
  let ?S = "sl_after rnd ?spt"
  let ?ts = "sl_loop rnd 0 n 0 ?spt"
  let ?l = "nat (n - 1)"
  let ?f = "boundary rnd h n"
  let ?tds = "?ts[?l := (?ts ! ?l)\<lparr>sl_count := h - sl_start (?ts ! ?l)\<rparr>]"
  have len: "length ?ts = nat n" by (simp add: sl_loop_length)
  have nth: "?ts ! k = \<lparr>sl_start = int_of_double (?S k),
      sl_count = int_of_double (?S (Suc k)) - int_of_double (?S k)\<rparr>" if "k < nat n" for k
    using that sl_loop_nth [of k n 0 rnd 0 ?spt] by (simp add: sl_after_def)
  have l: "?l < nat n" "Suc ?l = nat n" using assms by auto
  have "?tds = map (\<lambda>k. \<lparr>sl_start = ?f k, sl_count = ?f (Suc k) - ?f k\<rparr>) [0..<nat n]"
  proof (rule nth_equalityI)
    show "length ?tds = length (map (\<lambda>k. \<lparr>sl_start = ?f k, sl_count = ?f (Suc k) - ?f k\<rparr>) [0..<nat n])"
      by (simp add: len)
  next
    fix k assume "k < length ?tds"
    then have k: "k < nat n" by (simp add: len)
    show "?tds ! k = map (\<lambda>k. \<lparr>sl_start = ?f k, sl_count = ?f (Suc k) - ?f k\<rparr>) [0..<nat n] ! k"
    proof (cases "k = ?l")
      case True
      with k l show ?thesis by (simp add: len nth boundary_def)
    next
      case False
      with k l have "Suc k < nat n" by linarith
      with k False show ?thesis by (simp add: len nth boundary_def)
    qed
  qed
  moreover have "cray_mt_threads rnd n h = Some ?tds"
    using assms by (simp add: cray_mt_threads_def Let_def)
  ultimately show ?thesis by simp
qed

lemma sl_after_Suc: "sl_after rnd spt (Suc k) = rnd (sl_after rnd spt k + spt)"
  by (simp add: sl_after_def)

lemma sl_after_0: "sl_after rnd spt 0 = 0"
  by (simp add: sl_after_def)

lemma boundary_0: "1 \<le> n \<Longrightarrow> boundary rnd h n 0 = 0"
  by (simp add: boundary_def sl_after_0 int_of_double_def)

lemma boundary_last: "boundary rnd h n (nat n) = h"
  by (simp add: boundary_def)







subsection \<open>The scanline partition: exact arithmetic\<close>

lemma int_of_double_frac:
  "0 \<le> a \<Longrightarrow> 0 < b \<Longrightarrow> int_of_double (real_of_int a / real_of_int b) = a div b"
  by (simp add: int_of_double_def floor_divide_of_int_eq)

lemma sl_after_exact: "sl_after (\<lambda>x. x) spt k = real k * spt"
  by (induction k) (simp_all add: sl_after_0 sl_after_Suc algebra_simps)

lemma share_last: "0 < n \<Longrightarrow> share h n (nat n) = h"
  by (simp add: share_def)

lemma boundary_exact:
  assumes "0 \<le> h" "0 < n" "k \<le> nat n"
  shows "boundary (\<lambda>x. x) h n k = share h n k"
proof (cases "k < nat n")
  case True
  have "real k * (real_of_int h / real_of_int n) = real_of_int (int k * h) / real_of_int n"
    by simp
  moreover have "0 \<le> int k * h" using assms by simp
  ultimately have "int_of_double (real k * (real_of_int h / real_of_int n)) = share h n k"
    using assms(2) by (simp only: int_of_double_frac share_def)
  with True show ?thesis by (simp add: boundary_def sl_after_exact)
next
  case False
  with assms have "k = nat n" by simp
  with assms show ?thesis by (simp add: boundary_def share_last)
qed


lemma share_step:
  assumes "0 < n"
  shows "share h n (Suc k) - share h n k = h div n \<or> share h n (Suc k) - share h n k = h div n + 1"
proof -
  let ?a = "int k * h"
  let ?s = "?a mod n + h mod n"
  have "int (Suc k) * h = ?a + h" by (simp add: algebra_simps)
  then have eq: "share h n (Suc k) = ?a div n + h div n + ?s div n"
    unfolding share_def by (simp only: div_add1_eq [of ?a h n])
  have "0 \<le> ?a mod n" "?a mod n < n" "0 \<le> h mod n" "h mod n < n"
    using assms by simp_all
  then have bounds: "0 \<le> ?s" "?s < 2 * n"
    by linarith+
  have "?s div n = 0 \<or> ?s div n = 1"
  proof (cases "?s < n")
    case True
    with bounds show ?thesis by (simp add: div_pos_pos_trivial)
  next
    case False
    then have "0 \<le> ?s - n" "?s - n < n" using bounds by simp_all
    then have "(?s - n) div n = 0" by (simp add: div_pos_pos_trivial)
    moreover have "?s div n = (?s - n) div n + 1"
      using assms div_add_self2 [of n "?s - n"] by simp
    ultimately show ?thesis by simp
  qed
  with eq show ?thesis by (auto simp: share_def)
qed

lemma share_dvd:
  assumes "0 < n" "n dvd h"
  shows "share h n (Suc k) - share h n k = h div n"
proof -
  from assms(2) obtain q where q: "h = n * q" ..
  have "int (Suc k) * h = n * (int (Suc k) * q)" "int k * h = n * (int k * q)"
    by (simp_all only: q mult.left_commute)
  then have "share h n (Suc k) = int (Suc k) * q" "share h n k = int k * q"
    using assms(1) by (simp_all add: share_def)
  moreover have "h div n = q" using assms(1) q by simp
  ultimately show ?thesis by (simp add: algebra_simps)
qed

subsection \<open>The scanline partition: rounded arithmetic\<close>

text \<open>
  With up to \<open>2 ^ 20\<close> workers and a height below \<open>2 ^ 31\<close> the rounding errors of the
  accumulated \<^verbatim>\<open>sl\<close> stay below one scanline, so the last worker's start stays below the
  height, and each single step of \<^verbatim>\<open>sl\<close> stays within \<open>1 / 2 ^ 20\<close> of \<open>yres / thread_num\<close>.
\<close>

lemma growth_bound:
  fixes u :: real and m :: nat
  assumes "0 \<le> u" "2 * real m * u \<le> 1"
  shows "(1 + u) ^ m \<le> 1 + 2 * real m * u"
  using assms(2)
proof (induction m)
  case 0
  show ?case by simp
next
  case (Suc m)
  have le: "2 * real m * u \<le> 2 * real (Suc m) * u"
    using assms(1) by (simp add: algebra_simps)
  with Suc.prems have m: "2 * real m * u \<le> 1" by linarith
  with Suc.IH have ih: "(1 + u) ^ m \<le> 1 + 2 * real m * u" by simp
  have "(1 + u) ^ Suc m = (1 + u) ^ m * (1 + u)" by simp
  also have "\<dots> \<le> (1 + 2 * real m * u) * (1 + u)"
    using ih assms(1) by (intro mult_right_mono) simp_all
  also have "\<dots> = 1 + 2 * real m * u + u + (2 * real m * u) * u"
    by (simp add: algebra_simps)
  also have "\<dots> \<le> 1 + 2 * real m * u + u + 1 * u"
    using m assms(1) by (intro add_left_mono mult_right_mono) simp_all
  also have "\<dots> = 1 + 2 * real (Suc m) * u" by (simp add: algebra_simps)
  finally show ?case .
qed

lemma sl_after_nonneg:
  assumes "fp_rounding rnd" "0 \<le> spt"
  shows "0 \<le> sl_after rnd spt k"
proof (induction k)
  case 0
  show ?case by (simp add: sl_after_0)
next
  case (Suc k)
  have "rnd 0 \<le> rnd (sl_after rnd spt k + spt)"
    using Suc assms(2) by (intro rnd_mono [OF assms(1)]) simp_all
  then show ?case by (simp add: sl_after_Suc rnd_0 [OF assms(1)])
qed



lemma unit_growth:
  fixes m :: nat
  assumes "m \<le> 2 ^ 20"
  shows "(1 + 1 / 2 ^ 53 :: real) ^ m \<le> 1 + 1 / 2 ^ 32"
proof -
  have "real m \<le> 2 ^ 20" using assms by (metis of_nat_le_iff of_nat_numeral of_nat_power)
  then have a: "2 * real m * (1 / 2 ^ 53) \<le> 1 / 2 ^ 32" by simp
  then have "2 * real m * (1 / 2 ^ 53 :: real) \<le> 1" by simp
  then have "(1 + 1 / 2 ^ 53 :: real) ^ m \<le> 1 + 2 * real m * (1 / 2 ^ 53)"
    by (intro growth_bound) simp_all
  with a show ?thesis by linarith
qed

lemma sl_after_bound:
  assumes R: "fp_rounding rnd" and n: "1 \<le> n" "n \<le> h" "n \<le> 2 ^ 20" and h: "h < 2 ^ 31"
    and k: "k \<le> nat n"
  defines "c \<equiv> real_of_int h / real_of_int n"
  shows "sl_after rnd (rnd c) k \<le> real k * c * (1 + 1 / 2 ^ 53) ^ Suc k"
  using k
proof (induction k)
  case 0
  show ?case by (simp add: sl_after_0)
next
  case (Suc k)
  let ?U = "1 + 1 / 2 ^ 53 :: real"
  let ?S = "sl_after rnd (rnd c)"
  have U1: "1 \<le> ?U" by simp
  have c1: "1 \<le> c" using n by (simp add: c_def)
  have ch: "c \<le> real_of_int h" using n by (simp add: c_def field_simps)
  have hr: "real_of_int h < 2 ^ 31" using h by (metis of_int_less_iff of_int_numeral of_int_power)
  have spt1: "1 \<le> rnd c" using rnd_mono [OF R _ c1] by (simp add: rnd_1 [OF R])
  have sptU: "rnd c \<le> c * ?U" using c1 ch hr by (intro rnd_upper [OF R]) simp_all
  have ih: "?S k \<le> real k * c * ?U ^ Suc k" using Suc by simp
  have S0: "0 \<le> ?S k" using spt1 by (intro sl_after_nonneg [OF R]) simp
  have Uk: "?U \<le> ?U ^ Suc k" using U1 by (simp add: self_le_power)
  have x_up: "?S k + rnd c \<le> real (Suc k) * c * ?U ^ Suc k"
  proof -
    have "rnd c \<le> c * ?U ^ Suc k"
      using sptU Uk c1 by (smt (verit) mult_left_mono)
    with ih show ?thesis by (simp add: algebra_simps)
  qed
  have kn: "real (Suc k) \<le> real_of_int n" using Suc.prems by linarith
  have Ug: "?U ^ Suc k \<le> 1 + 1 / 2 ^ 32"
  proof -
    have "Suc k \<le> 2 ^ 20" using Suc.prems n(3) by (simp add: nat_le_iff)
    then show ?thesis by (rule unit_growth)
  qed
  have "real (Suc k) * c \<le> real_of_int n * c" using kn c1 by (intro mult_right_mono) simp_all
  also have "\<dots> = real_of_int h" using n by (simp add: c_def)
  finally have kc: "real (Suc k) * c \<le> real_of_int h" .
  have h0: "0 \<le> real_of_int h" using n by simp
  have "real (Suc k) * c * ?U ^ Suc k \<le> real_of_int h * (1 + 1 / 2 ^ 32)"
    using kc Ug h0 by (intro mult_mono) simp_all
  also have "\<dots> \<le> 2 ^ 53" using hr by simp
  finally have big: "real (Suc k) * c * ?U ^ Suc k \<le> 2 ^ 53" .
  have x1: "1 \<le> ?S k + rnd c" using S0 spt1 by simp
  have "?S (Suc k) = rnd (?S k + rnd c)" by (simp add: sl_after_Suc)
  also have "\<dots> \<le> (?S k + rnd c) * ?U"
    using x1 x_up big by (intro rnd_upper [OF R]) simp_all
  also have "\<dots> \<le> (real (Suc k) * c * ?U ^ Suc k) * ?U"
    using x_up by (intro mult_right_mono) simp_all
  also have "\<dots> = real (Suc k) * c * ?U ^ Suc (Suc k)" by simp
  finally show ?case .
qed




text \<open>The argument of each rounded addition lies between 1 and \<open>h * (1 + 1 / 2 ^ 32)\<close>.\<close>

lemma sl_next_range:
  assumes R: "fp_rounding rnd" and n: "1 \<le> n" "n \<le> h" "n \<le> 2 ^ 20" and h: "h < 2 ^ 31"
    and k: "Suc k \<le> nat n"
  defines "c \<equiv> real_of_int h / real_of_int n"
  shows "1 \<le> sl_after rnd (rnd c) k + rnd c"
    and "sl_after rnd (rnd c) k + rnd c \<le> real_of_int h * (1 + 1 / 2 ^ 32)"
proof -
  let ?U = "1 + 1 / 2 ^ 53 :: real"
  let ?S = "sl_after rnd (rnd c)"
  have U1: "1 \<le> ?U" by simp
  have c1: "1 \<le> c" using n by (simp add: c_def)
  have ch: "c \<le> real_of_int h" using n by (simp add: c_def field_simps)
  have hr: "real_of_int h < 2 ^ 31" using h by (metis of_int_less_iff of_int_numeral of_int_power)
  have spt1: "1 \<le> rnd c" using rnd_mono [OF R _ c1] by (simp add: rnd_1 [OF R])
  have sptU: "rnd c \<le> c * ?U" using c1 ch hr by (intro rnd_upper [OF R]) simp_all
  have S0: "0 \<le> ?S k" using spt1 by (intro sl_after_nonneg [OF R]) simp
  show "1 \<le> ?S k + rnd c" using S0 spt1 by simp
  have kn: "k \<le> nat n" using k by simp
  have ih: "?S k \<le> real k * c * ?U ^ Suc k"
    unfolding c_def using sl_after_bound [OF R n h kn] .
  have Uk: "?U \<le> ?U ^ Suc k" using U1 by (simp add: self_le_power)
  have "rnd c \<le> c * ?U ^ Suc k"
    using sptU Uk c1 by (smt (verit) mult_left_mono)
  with ih have x_up: "?S k + rnd c \<le> real (Suc k) * c * ?U ^ Suc k"
    by (simp add: algebra_simps)
  have Ug: "?U ^ Suc k \<le> 1 + 1 / 2 ^ 32"
  proof -
    have "Suc k \<le> 2 ^ 20" using k n(3) by (simp add: nat_le_iff)
    then show ?thesis by (rule unit_growth)
  qed
  have "real (Suc k) \<le> real_of_int n" using k by linarith
  then have "real (Suc k) * c \<le> real_of_int n * c" using c1 by (intro mult_right_mono) simp_all
  also have "\<dots> = real_of_int h" using n by (simp add: c_def)
  finally have kc: "real (Suc k) * c \<le> real_of_int h" .
  have h0: "0 \<le> real_of_int h" using n by simp
  have "real (Suc k) * c * ?U ^ Suc k \<le> real_of_int h * (1 + 1 / 2 ^ 32)"
    using kc Ug h0 by (intro mult_mono) simp_all
  with x_up show "?S k + rnd c \<le> real_of_int h * (1 + 1 / 2 ^ 32)" by linarith
qed

lemma sl_step_close:
  assumes R: "fp_rounding rnd" and n: "1 \<le> n" "n \<le> h" "n \<le> 2 ^ 20" and h: "h < 2 ^ 31"
    and k: "Suc k \<le> nat n"
  defines "c \<equiv> real_of_int h / real_of_int n"
  shows "\<bar>sl_after rnd (rnd c) (Suc k) - sl_after rnd (rnd c) k - c\<bar> < 1 / 2 ^ 20"
proof -
  let ?S = "sl_after rnd (rnd c)"
  let ?x = "?S k + rnd c"
  have c1: "1 \<le> c" using n by (simp add: c_def)
  have ch: "c \<le> real_of_int h" using n by (simp add: c_def field_simps)
  have hr: "real_of_int h < 2 ^ 31" using h by (metis of_int_less_iff of_int_numeral of_int_power)
  note rg = sl_next_range [OF R n h k, folded c_def]
  have x53: "?x \<le> 2 ^ 53" using rg(2) hr by simp
  have e1: "\<bar>rnd ?x - ?x\<bar> \<le> ?x / 2 ^ 53" using rg(1) x53 by (intro rnd_err [OF R])
  have e2: "\<bar>rnd c - c\<bar> \<le> c / 2 ^ 53" using c1 ch hr by (intro rnd_err [OF R]) simp_all
  have "?x / 2 ^ 53 \<le> real_of_int h * (1 + 1 / 2 ^ 32) / 2 ^ 53"
    using rg(2) by (intro divide_right_mono) simp_all
  also have "\<dots> < 2 / 2 ^ 22" using hr by simp
  finally have b1: "?x / 2 ^ 53 < 2 / 2 ^ 22" .
  have "c / 2 ^ 53 \<le> real_of_int h / 2 ^ 53" using ch by (intro divide_right_mono) simp_all
  also have "\<dots> < 1 / 2 ^ 22" using hr by simp
  finally have b2: "c / 2 ^ 53 < 1 / 2 ^ 22" .
  have "?S (Suc k) - ?S k - c = (rnd ?x - ?x) + (rnd c - c)"
    by (simp add: sl_after_Suc)
  then have "\<bar>?S (Suc k) - ?S k - c\<bar> \<le> \<bar>rnd ?x - ?x\<bar> + \<bar>rnd c - c\<bar>"
    by linarith
  also have "\<dots> < 2 / 2 ^ 22 + 1 / 2 ^ 22" using e1 e2 b1 b2 by linarith
  also have "\<dots> \<le> (1 / 2 ^ 20 :: real)" by simp
  finally show ?thesis .
qed

text \<open>When \<open>n\<close> divides \<open>h\<close> every value of \<^verbatim>\<open>sl\<close> is an integer and no addition rounds.\<close>

lemma sl_after_dvd:
  assumes R: "fp_rounding rnd" and n: "1 \<le> n" "n \<le> h" and h: "h < 2 ^ 31"
    and dv: "n dvd h" and k: "k \<le> nat n"
  shows "sl_after rnd (rnd (real_of_int h / real_of_int n)) k = real_of_int (int k * (h div n))"
  using k
proof (induction k)
  case 0
  show ?case by (simp add: sl_after_0)
next
  case (Suc k)
  let ?q = "h div n"
  have hq: "h = n * ?q" using dv by simp
  have q0: "0 \<le> ?q" using n by (simp add: pos_imp_zdiv_nonneg_iff)
  have c: "real_of_int h / real_of_int n = real_of_int ?q"
    using n dv by (simp add: real_of_int_div)
  have "1 * ?q \<le> n * ?q" using n q0 by (intro mult_right_mono) simp_all
  then have "?q \<le> h" using hq by simp
  then have "?q \<le> 2 ^ 53" using h by simp
  then have spt: "rnd (real_of_int ?q) = real_of_int ?q" using q0 by (intro rnd_int [OF R])
  have "int (Suc k) * ?q \<le> n * ?q" using Suc.prems q0 by (intro mult_right_mono) simp_all
  then have "int (Suc k) * ?q \<le> 2 ^ 53" using h hq by simp
  moreover have "0 \<le> int (Suc k) * ?q" using q0 by simp
  ultimately have r: "rnd (real_of_int (int (Suc k) * ?q)) = real_of_int (int (Suc k) * ?q)"
    by (intro rnd_int [OF R])
  have "k \<le> nat n" using Suc.prems by simp
  then have ih: "sl_after rnd (rnd (real_of_int ?q)) k = real_of_int (int k * ?q)"
    using Suc.IH by (simp only: c)
  have "sl_after rnd (rnd (real_of_int ?q)) (Suc k)
      = rnd (sl_after rnd (rnd (real_of_int ?q)) k + rnd (real_of_int ?q))"
    by (rule sl_after_Suc)
  also have "\<dots> = rnd (real_of_int (int k * ?q) + rnd (real_of_int ?q))"
    by (simp only: ih)
  also have "\<dots> = rnd (real_of_int (int k * ?q) + real_of_int ?q)"
    by (simp only: spt)
  also have "real_of_int (int k * ?q) + real_of_int ?q = real_of_int (int (Suc k) * ?q)"
    by (simp add: algebra_simps)
  finally have "sl_after rnd (rnd (real_of_int ?q)) (Suc k) = real_of_int (int (Suc k) * ?q)"
    by (simp only: r)
  then show ?case by (simp only: c)
qed

lemma floor_step:
  assumes "0 \<le> a" "0 \<le> q" "real_of_int q \<le> b - a" "b - a < real_of_int q + 1"
  shows "int_of_double b - int_of_double a = q \<or> int_of_double b - int_of_double a = q + 1"
proof -
  have b0: "0 \<le> b" using assms by linarith
  have "real_of_int \<lfloor>a\<rfloor> \<le> a" "a < real_of_int \<lfloor>a\<rfloor> + 1" by linarith+
  with assms have "real_of_int \<lfloor>a\<rfloor> + real_of_int q \<le> b"
      "b < real_of_int \<lfloor>a\<rfloor> + real_of_int q + 2"
    by linarith+
  then have lo: "real_of_int (\<lfloor>a\<rfloor> + q) \<le> b" and hi: "b < real_of_int (\<lfloor>a\<rfloor> + q + 2)"
    by simp_all
  from lo have "\<lfloor>a\<rfloor> + q \<le> \<lfloor>b\<rfloor>" by (simp only: le_floor_iff)
  moreover from hi have "\<lfloor>b\<rfloor> < \<lfloor>a\<rfloor> + q + 2" by (simp only: floor_less_iff)
  ultimately show ?thesis using assms(1) b0 by (simp add: int_of_double_def) linarith
qed

lemma frac_room:
  assumes n: "1 \<le> n" and nd: "\<not> n dvd h"
  shows "real_of_int (h div n) + 1 / real_of_int n \<le> real_of_int h / real_of_int n"
    and "real_of_int h / real_of_int n \<le> real_of_int (h div n) + 1 - 1 / real_of_int n"
proof -
  have "0 \<le> h mod n" "h mod n < n" using n by simp_all
  moreover have "h mod n \<noteq> 0" using nd by (simp add: dvd_eq_mod_eq_0)
  ultimately have m: "1 \<le> h mod n" "h mod n \<le> n - 1" by linarith+
  have "h = n * (h div n) + h mod n" by simp
  then have "real_of_int h = real_of_int n * real_of_int (h div n) + real_of_int (h mod n)"
    by (metis of_int_add of_int_mult)
  then have c: "real_of_int h / real_of_int n
      = real_of_int (h div n) + real_of_int (h mod n) / real_of_int n"
    using n by (simp add: field_simps)
  have "1 / real_of_int n \<le> real_of_int (h mod n) / real_of_int n"
    using m(1) n by (intro divide_right_mono) simp_all
  with c show "real_of_int (h div n) + 1 / real_of_int n \<le> real_of_int h / real_of_int n"
    by linarith
  have "real_of_int (h mod n) \<le> real_of_int (n - 1)"
    using m(2) by (simp only: of_int_le_iff)
  then have "real_of_int (h mod n) / real_of_int n \<le> real_of_int (n - 1) / real_of_int n"
    using n by (intro divide_right_mono) simp_all
  also have "\<dots> = 1 - 1 / real_of_int n" using n by (simp add: field_simps)
  finally show "real_of_int h / real_of_int n \<le> real_of_int (h div n) + 1 - 1 / real_of_int n"
    using c by linarith
qed

lemma sl_step_range:
  assumes R: "fp_rounding rnd" and n: "1 \<le> n" "n \<le> h" "n \<le> 2 ^ 20" and h: "h < 2 ^ 31"
    and k: "Suc k \<le> nat n"
  defines "c \<equiv> real_of_int h / real_of_int n"
  shows "real_of_int (h div n) \<le> sl_after rnd (rnd c) (Suc k) - sl_after rnd (rnd c) k"
    and "sl_after rnd (rnd c) (Suc k) - sl_after rnd (rnd c) k < real_of_int (h div n) + 1"
proof -
  let ?S = "sl_after rnd (rnd c)"
  have "real_of_int (h div n) \<le> ?S (Suc k) - ?S k \<and> ?S (Suc k) - ?S k < real_of_int (h div n) + 1"
  proof (cases "n dvd h")
    case True
    have k': "k \<le> nat n" using k by simp
    have "?S (Suc k) = real_of_int (int (Suc k) * (h div n))"
      unfolding c_def using sl_after_dvd [OF R n(1,2) h True k] .
    moreover have "?S k = real_of_int (int k * (h div n))"
      unfolding c_def using sl_after_dvd [OF R n(1,2) h True k'] .
    ultimately have "?S (Suc k) - ?S k = real_of_int (h div n)" by (simp add: algebra_simps)
    then show ?thesis by simp
  next
    case False
    note cl = sl_step_close [OF R n h k, folded c_def]
    note fr = frac_room [OF n(1) False, folded c_def]
    have "real_of_int n \<le> 2 ^ 20" using n(3) by (metis of_int_le_iff of_int_numeral of_int_power)
    moreover have "0 < real_of_int n" using n by simp
    ultimately have "1 / 2 ^ 20 \<le> 1 / real_of_int n" by (simp add: field_simps)
    with cl fr show ?thesis by linarith
  qed
  then show "real_of_int (h div n) \<le> ?S (Suc k) - ?S k"
    and "?S (Suc k) - ?S k < real_of_int (h div n) + 1" by simp_all
qed

lemma boundary_step_rounded:
  assumes R: "fp_rounding rnd" and n: "1 \<le> n" "n \<le> h" "n \<le> 2 ^ 20" and h: "h < 2 ^ 31"
    and k: "Suc k < nat n"
  shows "boundary rnd h n (Suc k) - boundary rnd h n k = h div n \<or>
         boundary rnd h n (Suc k) - boundary rnd h n k = h div n + 1"
proof -
  let ?spt = "rnd (real_of_int h / real_of_int n)"
  let ?S = "sl_after rnd ?spt"
  have spt0: "0 \<le> ?spt"
    using rnd_mono [OF R, of 0 "real_of_int h / real_of_int n"] n by (simp add: rnd_0 [OF R])
  have k': "Suc k \<le> nat n" using k by simp
  have q0: "0 \<le> h div n" using n by (simp add: pos_imp_zdiv_nonneg_iff)
  have "int_of_double (?S (Suc k)) - int_of_double (?S k) = h div n \<or>
        int_of_double (?S (Suc k)) - int_of_double (?S k) = h div n + 1"
    using sl_after_nonneg [OF R spt0, of k] q0 sl_step_range [OF R n h k']
    by (intro floor_step)
  with k show ?thesis by (simp add: boundary_def)
qed

lemma boundary_dvd_rounded:
  assumes R: "fp_rounding rnd" and n: "1 \<le> n" "n \<le> h" and h: "h < 2 ^ 31"
    and dv: "n dvd h" and k: "k < nat n"
  shows "boundary rnd h n (Suc k) - boundary rnd h n k = h div n"
proof -
  have hq: "h = n * (h div n)" using dv by simp
  have q0: "0 \<le> h div n" using n by (simp add: pos_imp_zdiv_nonneg_iff)
  have b: "boundary rnd h n j = int j * (h div n)" if "j \<le> nat n" for j
  proof (cases "j < nat n")
    case True
    have "0 \<le> int j * (h div n)" using q0 by simp
    then have "int_of_double (real_of_int (int j * (h div n))) = int j * (h div n)"
      by (simp only: int_of_double_def of_int_0_le_iff if_True floor_of_int)
    with True show ?thesis
      using sl_after_dvd [OF R n h dv that] by (simp add: boundary_def)
  next
    case False
    with that have "j = nat n" by simp
    with n hq show ?thesis by (simp add: boundary_def)
  qed
  have "Suc k \<le> nat n" "k \<le> nat n" using k by simp_all
  then show ?thesis by (simp add: b algebra_simps)
qed

subsection \<open>The scanline partition: the claims\<close>


lemma boundary_step:
  assumes "1 \<le> n" "n \<le> h"
    and "rnd = (\<lambda>x. x) \<or> fp_rounding rnd \<and> n \<le> 2 ^ 20 \<and> h < 2 ^ 31"
    and "Suc k < nat n"
  shows "boundary rnd h n (Suc k) - boundary rnd h n k = h div n \<or>
         boundary rnd h n (Suc k) - boundary rnd h n k = h div n + 1"
  using assms(3)
proof
  assume e: "rnd = (\<lambda>x. x)"
  have "0 \<le> h" "0 < n" "k \<le> nat n" "Suc k \<le> nat n" using assms by simp_all
  then show ?thesis unfolding e using share_step [of n h k] by (simp only: boundary_exact)
next
  assume "fp_rounding rnd \<and> n \<le> 2 ^ 20 \<and> h < 2 ^ 31"
  then show ?thesis using assms(1,2,4) by (intro boundary_step_rounded) simp_all
qed

lemma boundary_dvd:
  assumes "1 \<le> n" "n \<le> h"
    and "rnd = (\<lambda>x. x) \<or> fp_rounding rnd \<and> n \<le> 2 ^ 20 \<and> h < 2 ^ 31"
    and "n dvd h" "k < nat n"
  shows "boundary rnd h n (Suc k) - boundary rnd h n k = h div n"
  using assms(3)
proof
  assume e: "rnd = (\<lambda>x. x)"
  have "0 \<le> h" "0 < n" "k \<le> nat n" "Suc k \<le> nat n" using assms by simp_all
  then show ?thesis unfolding e using share_dvd [of n h k] assms(4) by (simp only: boundary_exact)
next
  assume "fp_rounding rnd \<and> n \<le> 2 ^ 20 \<and> h < 2 ^ 31"
  then show ?thesis using assms(1,2,4,5) by (intro boundary_dvd_rounded) simp_all
qed



text \<open>
  Claim C8, amended. For every height \<open>h\<close> and every worker count \<open>n\<close> with
  \<open>1 \<le> n \<le> h\<close>, the ranges are contiguous (the first starts at 0 and each worker starts
  where the one before it ends), every worker but the last gets either \<open>\<lfloor>h / n\<rfloor>\<close> or
  \<open>\<lfloor>h / n\<rfloor> + 1\<close> scanlines, every worker gets exactly \<open>\<lfloor>h / n\<rfloor>\<close> when \<open>n\<close> divides
  \<open>h\<close>, and the last worker gets \<open>h\<close> minus its start, by the assignment after the loop.
  This holds when the additions of \<^verbatim>\<open>sl_per_thread\<close> are exact, for all \<open>n\<close> and \<open>h\<close>, and
  when every double operation rounds as IEEE doubles do, for \<open>n \<le> 2 ^ 20\<close> and
  \<open>h < 2 ^ 31\<close>.
\<close>

theorem partition_counts:
  assumes "1 \<le> n" "n \<le> h"
    and "rnd = (\<lambda>x. x) \<or> fp_rounding rnd \<and> n \<le> 2 ^ 20 \<and> h < 2 ^ 31"
  shows "\<exists>tds. cray_mt_threads rnd n h = Some tds \<and> length tds = nat n \<and>
           sl_start (tds ! 0) = 0 \<and>
           (\<forall>k. Suc k < length tds \<longrightarrow>
              (sl_count (tds ! k) = h div n \<or> sl_count (tds ! k) = h div n + 1) \<and>
              sl_start (tds ! Suc k) = sl_start (tds ! k) + sl_count (tds ! k)) \<and>
           (n dvd h \<longrightarrow> (\<forall>k. k < length tds \<longrightarrow> sl_count (tds ! k) = h div n)) \<and>
           sl_count (last tds) = h - sl_start (last tds)"
proof -
  let ?f = "boundary rnd h n"
  let ?tds = "map (\<lambda>k. \<lparr>sl_start = ?f k, sl_count = ?f (Suc k) - ?f k\<rparr>) [0..<nat n]"
  have tds: "cray_mt_threads rnd n h = Some ?tds"
    using assms(1,2) by (rule cray_mt_threads_boundary)
  have pos: "0 < n" using assms by simp
  have len: "length ?tds = nat n" by simp
  have nth: "?tds ! k = \<lparr>sl_start = ?f k, sl_count = ?f (Suc k) - ?f k\<rparr>" if "k < nat n" for k
    using that by simp
  have first: "sl_start (?tds ! 0) = 0" using pos assms(1) by (simp add: nth boundary_0)
  have mid: "(sl_count (?tds ! k) = h div n \<or> sl_count (?tds ! k) = h div n + 1) \<and>
      sl_start (?tds ! Suc k) = sl_start (?tds ! k) + sl_count (?tds ! k)"
    if "Suc k < length ?tds" for k
  proof -
    from that have k: "k < nat n" "Suc k < nat n" by simp_all
    then show ?thesis using boundary_step [OF assms k(2)] by (simp only: nth) simp
  qed
  have dv: "sl_count (?tds ! k) = h div n" if "n dvd h" "k < length ?tds" for k
  proof -
    from that(2) have k: "k < nat n" by simp
    then show ?thesis using boundary_dvd [OF assms that(1) k] by (simp only: nth) simp
  qed
  have ne: "[0..<nat n] \<noteq> []" using pos by simp
  have "last [0..<nat n] = nat n - 1" using ne by simp
  then have "last ?tds = \<lparr>sl_start = ?f (nat n - 1), sl_count = ?f (Suc (nat n - 1)) - ?f (nat n - 1)\<rparr>"
    by (simp add: last_map [OF ne])
  moreover have "Suc (nat n - 1) = nat n" using pos by simp
  ultimately have lst: "sl_count (last ?tds) = h - sl_start (last ?tds)"
    by (simp add: boundary_last)
  show ?thesis
    apply (rule exI [of _ ?tds])
    using tds len first mid dv lst by blast
qed

theorem partition_counts_witness:
  "(1::int) \<le> 3 \<and> (3::int) \<le> 5 \<and>
   fp_rounding double_round \<and> (3::int) \<le> 2 ^ 20 \<and> (5::int) < 2 ^ 31 \<and>
   (\<exists>tds. cray_mt_threads double_round 3 5 = Some tds \<and> length tds = 3 \<and>
      sl_start (tds ! 0) = 0 \<and>
      (sl_count (tds ! 0) = 1 \<or> sl_count (tds ! 0) = 2) \<and>
      sl_start (tds ! 1) = sl_start (tds ! 0) + sl_count (tds ! 0) \<and>
      sl_count (last tds) = 5 - sl_start (last tds))"
proof -
  have r: "double_round = (\<lambda>x. x) \<or> fp_rounding double_round \<and> (3::int) \<le> 2 ^ 20 \<and> (5::int) < 2 ^ 31"
    by (simp add: fp_rounding_double)
  from partition_counts [of 3 5 double_round, OF _ _ r]
  obtain tds where t: "cray_mt_threads double_round 3 5 = Some tds" "length tds = 3"
      "sl_start (tds ! 0) = 0"
      "\<forall>k. Suc k < length tds \<longrightarrow>
              (sl_count (tds ! k) = 5 div 3 \<or> sl_count (tds ! k) = 5 div 3 + 1) \<and>
              sl_start (tds ! Suc k) = sl_start (tds ! k) + sl_count (tds ! k)"
      "sl_count (last tds) = 5 - sl_start (last tds)"
    by auto
  from t(4) t(2) have "(sl_count (tds ! 0) = 5 div 3 \<or> sl_count (tds ! 0) = 5 div 3 + 1) \<and>
              sl_start (tds ! Suc 0) = sl_start (tds ! 0) + sl_count (tds ! 0)"
    by simp
  then have "(sl_count (tds ! 0) = 1 \<or> sl_count (tds ! 0) = 2) \<and>
      sl_start (tds ! 1) = sl_start (tds ! 0) + sl_count (tds ! 0)" by simp
  with t show ?thesis by (auto simp: fp_rounding_double)
qed

text \<open>The table for 3 workers and 5 scanlines, under any such rounding.\<close>

lemma table_3_5:
  assumes R: "fp_rounding rnd"
  shows "cray_mt_threads rnd 3 5 =
     Some [\<lparr>sl_start = 0, sl_count = 1\<rparr>, \<lparr>sl_start = 1, sl_count = 2\<rparr>,
           \<lparr>sl_start = 3, sl_count = 2\<rparr>]"
proof -
  let ?c = "5 / 3 :: real"
  let ?S = "sl_after rnd (rnd ?c)"
  have c: "\<bar>rnd ?c - ?c\<bar> \<le> ?c / 2 ^ 53" by (intro rnd_err [OF R]) simp_all
  moreover have "?c / 2 ^ 53 < 1 / 100" by simp
  ultimately have c1: "16 / 10 < rnd ?c" "rnd ?c < 17 / 10" by linarith+
  have s1: "?S 1 = rnd ?c" using c1 by (simp add: sl_after_def rnd_idem [OF R])
  have "\<bar>rnd (rnd ?c + rnd ?c) - (rnd ?c + rnd ?c)\<bar> \<le> (rnd ?c + rnd ?c) / 2 ^ 53"
    using c1 by (intro rnd_err [OF R]) simp_all
  moreover have "(rnd ?c + rnd ?c) / 2 ^ 53 \<le> 4 / 2 ^ 53"
    using c1 by (intro divide_right_mono) simp_all
  moreover have "(4 / 2 ^ 53 :: real) < 1 / 100" by simp
  ultimately have c2: "3 < rnd (rnd ?c + rnd ?c)" "rnd (rnd ?c + rnd ?c) < 4"
    using c1 by linarith+
  have s2: "?S 2 = rnd (rnd ?c + rnd ?c)"
    using s1 sl_after_Suc [of rnd "rnd ?c" 1] by (simp add: numeral_2_eq_2)
  have f1: "int_of_double (rnd ?c) = 1"
    using c1 by (simp add: int_of_double_def floor_eq_iff)
  have f2: "int_of_double (rnd (rnd ?c + rnd ?c)) = 3"
    using c2 by (simp add: int_of_double_def floor_eq_iff)
  have b: "boundary rnd 5 3 0 = 0" "boundary rnd 5 3 1 = 1" "boundary rnd 5 3 2 = 3"
      "boundary rnd 5 3 3 = 5"
    using s1 s2 f1 f2 by (simp_all add: boundary_def sl_after_0 int_of_double_def)
  have "[0..<nat 3] = [0, 1, 2]" by (simp add: upt_rec)
  then show ?thesis
    using cray_mt_threads_boundary [of 3 5 rnd] b by (simp add: numeral_2_eq_2 numeral_3_eq_3)
qed

text \<open>
  With 9 workers and 12 scanlines rounding shows in the table: \<^verbatim>\<open>sl\<close> is
  \<open>7.999999999999999\<close> after six additions of the rounded \<open>12 / 9\<close>, so the seventh
  worker starts at scanline 7 where exact arithmetic gives 8. The roundings of that run:
\<close>

lemma double_round_9_12:
  shows "double_round (4 / 3) = 6004799503160661 / 4503599627370496"
    "double_round (6004799503160661 / 4503599627370496) = 6004799503160661 / 4503599627370496"
    "double_round (6004799503160661 / 2251799813685248) = 6004799503160661 / 2251799813685248"
    "double_round (18014398509481983 / 4503599627370496) = 4"
    "double_round (24019198012642645 / 4503599627370496) = 6004799503160661 / 1125899906842624"
    "double_round (30023997515803305 / 4503599627370496) = 3752999689475413 / 562949953421312"
    "double_round (36028797018963965 / 4503599627370496) = 9007199254740991 / 1125899906842624"
    "double_round (42033596522124625 / 4503599627370496) = 2627099782632789 / 281474976710656"
    "double_round (48038396025285285 / 4503599627370496) = 6004799503160661 / 562949953421312"
    "double_round (54043195528445949 / 4503599627370496) = 12"
proof -
  have "round_even ((4 / 3 :: real) * 2 ^ (52 - 0)) = 6004799503160661"
    by (rule round_even_near) simp
  from double_round_at [where E = 0, OF _ _ _ this]
  show "double_round (4 / 3) = 6004799503160661 / 4503599627370496" by simp
  have "round_even ((6004799503160661 / 4503599627370496 :: real) * 2 ^ (52 - 0)) = 6004799503160661"
    by (rule round_even_near) simp
  from double_round_at [where E = 0, OF _ _ _ this]
  show "double_round (6004799503160661 / 4503599627370496) = 6004799503160661 / 4503599627370496" by simp
  have "round_even ((6004799503160661 / 2251799813685248 :: real) * 2 ^ (52 - 1)) = 6004799503160661"
    by (rule round_even_near) simp
  from double_round_at [where E = 1, OF _ _ _ this]
  show "double_round (6004799503160661 / 2251799813685248) = 6004799503160661 / 2251799813685248" by simp
  have "round_even ((18014398509481983 / 4503599627370496 :: real) * 2 ^ (52 - 1)) = 9007199254740992"
    by (rule round_even_tie) simp_all
  from double_round_at [where E = 1, OF _ _ _ this]
  show "double_round (18014398509481983 / 4503599627370496) = 4" by simp
  have "round_even ((24019198012642645 / 4503599627370496 :: real) * 2 ^ (52 - 2)) = 6004799503160661"
    by (rule round_even_near) simp
  from double_round_at [where E = 2, OF _ _ _ this]
  show "double_round (24019198012642645 / 4503599627370496) = 6004799503160661 / 1125899906842624" by simp
  have "round_even ((30023997515803305 / 4503599627370496 :: real) * 2 ^ (52 - 2)) = 7505999378950826"
    by (rule round_even_near) simp
  from double_round_at [where E = 2, OF _ _ _ this]
  show "double_round (30023997515803305 / 4503599627370496) = 3752999689475413 / 562949953421312" by simp
  have "round_even ((36028797018963965 / 4503599627370496 :: real) * 2 ^ (52 - 2)) = 9007199254740991"
    by (rule round_even_near) simp
  from double_round_at [where E = 2, OF _ _ _ this]
  show "double_round (36028797018963965 / 4503599627370496) = 9007199254740991 / 1125899906842624" by simp
  have "round_even ((42033596522124625 / 4503599627370496 :: real) * 2 ^ (52 - 3)) = 5254199565265578"
    by (rule round_even_near) simp
  from double_round_at [where E = 3, OF _ _ _ this]
  show "double_round (42033596522124625 / 4503599627370496) = 2627099782632789 / 281474976710656" by simp
  have "round_even ((48038396025285285 / 4503599627370496 :: real) * 2 ^ (52 - 3)) = 6004799503160661"
    by (rule round_even_near) simp
  from double_round_at [where E = 3, OF _ _ _ this]
  show "double_round (48038396025285285 / 4503599627370496) = 6004799503160661 / 562949953421312" by simp
  have "round_even ((54043195528445949 / 4503599627370496 :: real) * 2 ^ (52 - 3)) = 6755399441055744"
    by (rule round_even_near) simp
  from double_round_at [where E = 3, OF _ _ _ this]
  show "double_round (54043195528445949 / 4503599627370496) = 12" by simp
qed

lemma table_9_12_double:
  "cray_mt_threads double_round 9 12 =
     Some [\<lparr>sl_start = 0, sl_count = 1\<rparr>, \<lparr>sl_start = 1, sl_count = 1\<rparr>,
           \<lparr>sl_start = 2, sl_count = 2\<rparr>, \<lparr>sl_start = 4, sl_count = 1\<rparr>,
           \<lparr>sl_start = 5, sl_count = 1\<rparr>, \<lparr>sl_start = 6, sl_count = 1\<rparr>,
           \<lparr>sl_start = 7, sl_count = 2\<rparr>, \<lparr>sl_start = 9, sl_count = 1\<rparr>,
           \<lparr>sl_start = 10, sl_count = 2\<rparr>]"
  by (simp add: cray_mt_threads_def Let_def sl_loop.simps double_round_9_12 int_of_double_def
      floor_eq_iff)

lemma table_9_12_exact:
  "cray_mt_threads (\<lambda>x. x) 9 12 =
     Some [\<lparr>sl_start = 0, sl_count = 1\<rparr>, \<lparr>sl_start = 1, sl_count = 1\<rparr>,
           \<lparr>sl_start = 2, sl_count = 2\<rparr>, \<lparr>sl_start = 4, sl_count = 1\<rparr>,
           \<lparr>sl_start = 5, sl_count = 1\<rparr>, \<lparr>sl_start = 6, sl_count = 2\<rparr>,
           \<lparr>sl_start = 8, sl_count = 1\<rparr>, \<lparr>sl_start = 9, sl_count = 1\<rparr>,
           \<lparr>sl_start = 10, sl_count = 2\<rparr>]"
  by (simp add: cray_mt_threads_def Let_def sl_loop.simps int_of_double_def floor_eq_iff)

text \<open>
  Claim C8 as stated fails: with 5 scanlines and 3 workers the table is
  \<open>(0, 1), (1, 2), (3, 2)\<close>, in exact arithmetic and in IEEE double arithmetic, so the
  second worker, which is not the last, gets 2 scanlines and not \<open>\<lfloor>5 / 3\<rfloor> = 1\<close>.
\<close>

theorem partition_floor_counterexample:
  "cray_mt_threads (\<lambda>x. x) 3 5 =
     Some [\<lparr>sl_start = 0, sl_count = 1\<rparr>, \<lparr>sl_start = 1, sl_count = 2\<rparr>,
           \<lparr>sl_start = 3, sl_count = 2\<rparr>] \<and>
   cray_mt_threads double_round 3 5 =
     Some [\<lparr>sl_start = 0, sl_count = 1\<rparr>, \<lparr>sl_start = 1, sl_count = 2\<rparr>,
           \<lparr>sl_start = 3, sl_count = 2\<rparr>] \<and>
   sl_count (the (cray_mt_threads double_round 3 5) ! 1) \<noteq> 5 div 3"
  by (simp add: table_3_5 [OF fp_rounding_exact] table_3_5 [OF fp_rounding_double])

subsection \<open>Jitter\<close>

lemma MASK_val: "MASK = 1023" by (simp add: MASK_def NRAN_def)

lemma and_MASK_unat: "unat (w AND MASK) < NRAN"
proof -
  have "unat (w AND MASK) \<le> unat MASK"
    by (rule word_and_le1 [THEN word_le_nat_alt [THEN iffD1]])
  then show ?thesis by (simp add: MASK_val NRAN_def)
qed

lemma and_MASK_sint: "0 \<le> sint (w AND MASK) \<and> sint (w AND MASK) \<le> 1023"
proof -
  let ?u = "uint (w AND MASK)"
  have "unat (w AND MASK) < 1024" using and_MASK_unat [of w] by (simp add: NRAN_def)
  moreover have "?u = int (unat (w AND MASK))" by simp
  ultimately have lt: "?u < 1024" by linarith
  have ge: "0 \<le> ?u" by simp
  have a: "- (2 ^ 31) \<le> ?u" by (rule order_trans [OF _ ge]) simp
  have b: "?u < 2 ^ 31" by (rule less_trans [OF lt]) simp
  from a b have "signed_take_bit (31::nat) ?u = ?u"
    by (rule signed_take_bit_int_eq_self)
  then have "sint (w AND MASK) = ?u"
    by (simp add: sint_uint)
  with lt ge show ?thesis by simp
qed

text \<open>
  Claim C9. Every index that \<^verbatim>\<open>jitter\<close> computes into the tables \<^verbatim>\<open>irand\<close> and
  \<^verbatim>\<open>urand\<close> is masked with \<^verbatim>\<open>MASK\<close> = 1023 and lies in \<open>[0, 1023]\<close>, below the table
  size \<^verbatim>\<open>NRAN\<close> = 1024, both read as an unsigned and as a signed 32-bit value. This holds
  for all 32-bit \<open>x\<close>, \<open>y\<close>, \<open>s\<close> and all table contents, so in particular for pixel
  coordinates and sample indices for which the additions and the shift do not overflow.
\<close>

theorem jitter_indices_in_table:
  "unat (irand_index x s) < NRAN \<and> unat (irand_index y s) < NRAN \<and>
   unat (urand_index tab x y s) < NRAN \<and> unat (urand_index tab y x s) < NRAN \<and>
   0 \<le> sint (irand_index x s) \<and> sint (irand_index x s) \<le> 1023 \<and>
   0 \<le> sint (irand_index y s) \<and> sint (irand_index y s) \<le> 1023 \<and>
   0 \<le> sint (urand_index tab x y s) \<and> sint (urand_index tab x y s) \<le> 1023 \<and>
   0 \<le> sint (urand_index tab y x s) \<and> sint (urand_index tab y x s) \<le> 1023"
  unfolding irand_index_def urand_index_def
  using and_MASK_unat and_MASK_sint by blast

subsection \<open>Ray/sphere intersection\<close>

lemma quad_a_nonneg: "0 \<le> quad_a r"
  by (simp add: quad_a_def SQ_def)

lemma quad_a_pos:
  assumes "dir r \<noteq> \<lparr>vx = 0, vy = 0, vz = 0\<rparr>"
  shows "0 < quad_a r"
proof -
  have "vx (dir r) \<noteq> 0 \<or> vy (dir r) \<noteq> 0 \<or> vz (dir r) \<noteq> 0"
    using assms by (cases "dir r") auto
  then have "quad_a r \<noteq> 0"
    unfolding quad_a_def SQ_def
    by (metis add_nonneg_eq_0_iff add_nonneg_nonneg mult_eq_0_iff zero_le_square)
  with quad_a_nonneg [of r] show ?thesis by simp
qed

lemma quadratic_root_plus:
  fixes a b c :: real
  assumes "a \<noteq> 0" "0 \<le> b * b - 4 * a * c"
  shows "a * ((- b + sqrt (b * b - 4 * a * c)) / (2 * a)) * ((- b + sqrt (b * b - 4 * a * c)) / (2 * a))
         + b * ((- b + sqrt (b * b - 4 * a * c)) / (2 * a)) + c = 0"
proof -
  let ?s = "sqrt (b * b - 4 * a * c)"
  have s: "?s * ?s = b * b - 4 * a * c" using assms(2) by simp
  have "4 * a * (a * ((- b + ?s) / (2 * a)) * ((- b + ?s) / (2 * a)) + b * ((- b + ?s) / (2 * a)) + c)
        = (- b + ?s) * (- b + ?s) + 2 * b * (- b + ?s) + 4 * a * c"
    using assms(1) by (simp add: field_simps)
  also have "\<dots> = ?s * ?s - b * b + 4 * a * c" by (simp add: algebra_simps)
  also have "\<dots> = 0" using assms(2) by simp
  finally show ?thesis using assms(1) by simp
qed

lemma quadratic_root_minus:
  fixes a b c :: real
  assumes "a \<noteq> 0" "0 \<le> b * b - 4 * a * c"
  shows "a * ((- b - sqrt (b * b - 4 * a * c)) / (2 * a)) * ((- b - sqrt (b * b - 4 * a * c)) / (2 * a))
         + b * ((- b - sqrt (b * b - 4 * a * c)) / (2 * a)) + c = 0"
proof -
  let ?s = "sqrt (b * b - 4 * a * c)"
  have s: "?s * ?s = b * b - 4 * a * c" using assms(2) by simp
  have "4 * a * (a * ((- b - ?s) / (2 * a)) * ((- b - ?s) / (2 * a)) + b * ((- b - ?s) / (2 * a)) + c)
        = (- b - ?s) * (- b - ?s) + 2 * b * (- b - ?s) + 4 * a * c"
    using assms(1) by (simp add: field_simps)
  also have "\<dots> = ?s * ?s - b * b + 4 * a * c" by (simp add: algebra_simps)
  also have "\<dots> = 0" using assms(2) by simp
  finally show ?thesis using assms(1) by simp
qed

lemma quadratic_roots_only:
  fixes a b c u :: real
  assumes "a \<noteq> 0" and root: "a * u * u + b * u + c = 0"
  shows "0 \<le> b * b - 4 * a * c \<and>
         (u = (- b + sqrt (b * b - 4 * a * c)) / (2 * a) \<or> u = (- b - sqrt (b * b - 4 * a * c)) / (2 * a))"
proof -
  let ?d = "b * b - 4 * a * c"
  have sq: "(2 * a * u + b) * (2 * a * u + b) = ?d"
  proof -
    have "(2 * a * u + b) * (2 * a * u + b) = 4 * a * (a * u * u + b * u + c) + ?d"
      by (simp add: algebra_simps)
    then show ?thesis by (simp add: root)
  qed
  then have d: "0 \<le> ?d" by (metis zero_le_square)
  have "sqrt ?d = \<bar>2 * a * u + b\<bar>"
    using sq by (metis real_sqrt_abs2)
  then have "2 * a * u + b = sqrt ?d \<or> 2 * a * u + b = - sqrt ?d" by linarith
  then have "u = (- b + sqrt ?d) / (2 * a) \<or> u = (- b - sqrt ?d) / (2 * a)"
    using assms(1) by (auto simp: field_simps)
  with d show ?thesis by simp
qed

lemma ray_sphere_unfold:
  "ray_sphere sph r w =
     (if quad_d sph r < 0 then (False, None)
      else if (root_hi sph r < ERR_MARGIN \<and> root_lo sph r < ERR_MARGIN) \<or>
              (root_hi sph r > 1 \<and> root_lo sph r > 1) then (False, None)
      else if w then
        (True, Some (hit_point sph r
           (let t1 = (if root_hi sph r < ERR_MARGIN then root_lo sph r else root_hi sph r);
                t2 = (if root_lo sph r < ERR_MARGIN then t1 else root_lo sph r)
            in if t1 < t2 then t1 else t2)))
      else (True, None))"
  by (simp add: ray_sphere_def quad_d_def root_hi_def root_lo_def quad_a_def quad_b_def
      quad_c_def hit_point_def Let_def)

lemma root_lo_le_hi: "0 \<le> quad_d sph r \<Longrightarrow> root_lo sph r \<le> root_hi sph r"
  using quad_a_nonneg [of r]
  by (simp add: root_lo_def root_hi_def divide_right_mono)

lemma ray_sphere_hit:
  assumes "ray_sphere sph r True = (True, Some sp)"
  shows "0 \<le> quad_d sph r" and "ERR_MARGIN \<le> root_hi sph r" and "root_lo sph r \<le> 1"
    and "sp = hit_point sph r (if root_lo sph r < ERR_MARGIN then root_hi sph r else root_lo sph r)"
proof -
  from assms show d: "0 \<le> quad_d sph r"
    by (simp add: ray_sphere_unfold split: if_splits)
  note le = root_lo_le_hi [OF d]
  from assms have nrej: "\<not> (root_hi sph r < ERR_MARGIN \<and> root_lo sph r < ERR_MARGIN)"
      "\<not> (root_hi sph r > 1 \<and> root_lo sph r > 1)"
    by (simp_all add: ray_sphere_unfold split: if_splits)
  from nrej(1) le show hi: "ERR_MARGIN \<le> root_hi sph r" by linarith
  from nrej(2) le show "root_lo sph r \<le> 1" by linarith
  from assms d nrej have "sp = hit_point sph r
           (let t1 = (if root_hi sph r < ERR_MARGIN then root_lo sph r else root_hi sph r);
                t2 = (if root_lo sph r < ERR_MARGIN then t1 else root_lo sph r)
            in if t1 < t2 then t1 else t2)"
    by (simp add: ray_sphere_unfold split: if_splits)
  moreover have "(let t1 = (if root_hi sph r < ERR_MARGIN then root_lo sph r else root_hi sph r);
                t2 = (if root_lo sph r < ERR_MARGIN then t1 else root_lo sph r)
            in if t1 < t2 then t1 else t2)
        = (if root_lo sph r < ERR_MARGIN then root_hi sph r else root_lo sph r)"
    using hi le by (simp add: Let_def)
  ultimately show "sp = hit_point sph r (if root_lo sph r < ERR_MARGIN then root_hi sph r else root_lo sph r)"
    by simp
qed

lemma is_root_iff:
  assumes "0 < quad_a r"
  shows "is_root sph r u \<longleftrightarrow> 0 \<le> quad_d sph r \<and> (u = root_hi sph r \<or> u = root_lo sph r)"
proof
  assume "is_root sph r u"
  then show "0 \<le> quad_d sph r \<and> (u = root_hi sph r \<or> u = root_lo sph r)"
    using assms quadratic_roots_only [of "quad_a r" u "quad_b sph r" "quad_c sph r"]
    by (simp add: is_root_def quad_d_def root_hi_def root_lo_def SQ_def)
next
  assume "0 \<le> quad_d sph r \<and> (u = root_hi sph r \<or> u = root_lo sph r)"
  then show "is_root sph r u"
    using assms quadratic_root_plus [of "quad_a r" "quad_b sph r" "quad_c sph r"]
      quadratic_root_minus [of "quad_a r" "quad_b sph r" "quad_c sph r"]
    by (auto simp: is_root_def quad_d_def root_hi_def root_lo_def SQ_def)
qed

lemma sqrt16: "sqrt 16 = 4"
  by (rule real_sqrt_unique) simp_all

text \<open>
  Claim C3, amended. For a ray with a non-zero direction: when \<^verbatim>\<open>ray_sphere\<close> reports a
  hit and fills in the surface point, the returned distance \<open>t\<close> is a root of the
  intersection quadratic with \<open>t \<ge> ERR_MARGIN\<close>, and it is the least such root: the smaller
  root when that is at least \<open>ERR_MARGIN\<close>, otherwise the larger one. It is at most 1
  whenever some root lies in \<open>[ERR_MARGIN, 1]\<close>. The position is \<open>orig + t * dir\<close>, the
  normal is \<open>(position - centre) / radius\<close> and the view reflection is the normalised
  \<open>reflect dir normal\<close>. And whenever the quadratic has real roots of which the smaller is
  below \<open>ERR_MARGIN\<close> and the larger exceeds 1, \<^verbatim>\<open>ray_sphere\<close> reports a hit, at the larger
  root, a distance greater than 1.
\<close>

theorem ray_sphere_distance:
  assumes "dir r \<noteq> \<lparr>vx = 0, vy = 0, vz = 0\<rparr>"
  shows "(ray_sphere sph r True = (True, Some sp) \<longrightarrow>
           is_root sph r (sp_dist sp) \<and> ERR_MARGIN \<le> sp_dist sp \<and>
           (\<forall>u. is_root sph r u \<and> ERR_MARGIN \<le> u \<longrightarrow> sp_dist sp \<le> u) \<and>
           ((\<exists>u. is_root sph r u \<and> ERR_MARGIN \<le> u \<and> u \<le> 1) \<longrightarrow> sp_dist sp \<le> 1) \<and>
           sp_pos sp = \<lparr>vx = vx (orig r) + vx (dir r) * sp_dist sp,
                        vy = vy (orig r) + vy (dir r) * sp_dist sp,
                        vz = vz (orig r) + vz (dir r) * sp_dist sp\<rparr> \<and>
           normal sp = \<lparr>vx = (vx (sp_pos sp) - vx (pos sph)) / rad sph,
                        vy = (vy (sp_pos sp) - vy (pos sph)) / rad sph,
                        vz = (vz (sp_pos sp) - vz (pos sph)) / rad sph\<rparr> \<and>
           vref sp = NORMALIZE (reflect (dir r) (normal sp))) \<and>
         (0 \<le> quad_d sph r \<and> root_lo sph r < ERR_MARGIN \<and> 1 < root_hi sph r \<longrightarrow>
           (\<exists>sp'. ray_sphere sph r True = (True, Some sp') \<and>
                  sp_dist sp' = root_hi sph r \<and> is_root sph r (sp_dist sp') \<and> 1 < sp_dist sp'))"
proof (intro conjI impI)
  assume hit: "ray_sphere sph r True = (True, Some sp)"
  note h = ray_sphere_hit [OF hit]
  have a: "0 < quad_a r" using assms(1) by (rule quad_a_pos)
  note le = root_lo_le_hi [OF h(1)]
  let ?t = "if root_lo sph r < ERR_MARGIN then root_hi sph r else root_lo sph r"
  have dist: "sp_dist sp = ?t" by (simp add: h(4) hit_point_def Let_def)
  show "is_root sph r (sp_dist sp)"
    using h(1) by (simp add: is_root_iff [OF a] dist)
  show "ERR_MARGIN \<le> sp_dist sp" using h(2) by (simp add: dist)
  have least: "sp_dist sp \<le> u" if "is_root sph r u" "ERR_MARGIN \<le> u" for u
  proof -
    from that(1) have "u = root_hi sph r \<or> u = root_lo sph r"
      by (simp add: is_root_iff [OF a])
    with that(2) le show ?thesis by (auto simp: dist)
  qed
  then show "\<forall>u. is_root sph r u \<and> ERR_MARGIN \<le> u \<longrightarrow> sp_dist sp \<le> u" by blast
  assume "\<exists>u. is_root sph r u \<and> ERR_MARGIN \<le> u \<and> u \<le> 1"
  with least show "sp_dist sp \<le> 1" by force
next
  assume hit: "ray_sphere sph r True = (True, Some sp)"
  note h = ray_sphere_hit [OF hit]
  show "sp_pos sp = \<lparr>vx = vx (orig r) + vx (dir r) * sp_dist sp,
                      vy = vy (orig r) + vy (dir r) * sp_dist sp,
                      vz = vz (orig r) + vz (dir r) * sp_dist sp\<rparr>"
    and "normal sp = \<lparr>vx = (vx (sp_pos sp) - vx (pos sph)) / rad sph,
                      vy = (vy (sp_pos sp) - vy (pos sph)) / rad sph,
                      vz = (vz (sp_pos sp) - vz (pos sph)) / rad sph\<rparr>"
    and "vref sp = NORMALIZE (reflect (dir r) (normal sp))"
    by (simp_all add: h(4) hit_point_def Let_def)
next
  assume s: "0 \<le> quad_d sph r \<and> root_lo sph r < ERR_MARGIN \<and> 1 < root_hi sph r"
  have a: "0 < quad_a r" using assms(1) by (rule quad_a_pos)
  have e: "ERR_MARGIN < 1" by (simp add: ERR_MARGIN_def)
  with s have "ray_sphere sph r True = (True, Some (hit_point sph r (root_hi sph r)))"
    by (simp add: ray_sphere_unfold Let_def)
  moreover have "sp_dist (hit_point sph r (root_hi sph r)) = root_hi sph r"
    by (simp add: hit_point_def Let_def)
  moreover have "is_root sph r (root_hi sph r)" using s by (simp add: is_root_iff [OF a])
  ultimately show "\<exists>sp'. ray_sphere sph r True = (True, Some sp') \<and>
      sp_dist sp' = root_hi sph r \<and> is_root sph r (sp_dist sp') \<and> 1 < sp_dist sp'"
    using s by simp
qed

lemma sqrt64: "sqrt 64 = 8"
  by (rule real_sqrt_unique) simp_all

lemma demo_hit: "ray_sphere demo_sphere demo_ray True = (True, Some demo_point)"
  by (simp add: demo_sphere_def demo_ray_def demo_point_def ray_sphere_def SQ_def Let_def sqrt64
      ERR_MARGIN_def NORMALIZE_def reflect_def DOT_def)

lemma inner_roots:
  "quad_d wide_sphere inner_ray = 16" "root_lo wide_sphere inner_ray = - 2"
  "root_hi wide_sphere inner_ray = 2"
  by (simp_all add: quad_d_def root_lo_def root_hi_def quad_a_def quad_b_def quad_c_def
      wide_sphere_def inner_ray_def SQ_def sqrt16)

theorem ray_sphere_distance_witness:
  "dir demo_ray \<noteq> \<lparr>vx = 0, vy = 0, vz = 0\<rparr> \<and>
   ray_sphere demo_sphere demo_ray True = (True, Some demo_point) \<and>
   is_root demo_sphere demo_ray (1 / 2) \<and> ERR_MARGIN \<le> 1 / 2 \<and>
   dir inner_ray \<noteq> \<lparr>vx = 0, vy = 0, vz = 0\<rparr> \<and>
   0 \<le> quad_d wide_sphere inner_ray \<and> root_lo wide_sphere inner_ray < ERR_MARGIN \<and>
   1 < root_hi wide_sphere inner_ray \<and>
   (\<exists>sp'. ray_sphere wide_sphere inner_ray True = (True, Some sp') \<and> sp_dist sp' = 2)"
proof -
  have h1: "dir demo_ray \<noteq> \<lparr>vx = 0, vy = 0, vz = 0\<rparr>" by (simp add: demo_ray_def)
  have d: "sp_dist demo_point = 1 / 2" by (simp add: demo_point_def)
  have a: "is_root demo_sphere demo_ray (1 / 2) \<and> ERR_MARGIN \<le> 1 / 2"
    using ray_sphere_distance [OF h1, of demo_sphere demo_point] demo_hit d by simp
  have h2: "dir inner_ray \<noteq> \<lparr>vx = 0, vy = 0, vz = 0\<rparr>" by (simp add: inner_ray_def)
  have s: "0 \<le> quad_d wide_sphere inner_ray \<and> root_lo wide_sphere inner_ray < ERR_MARGIN \<and>
      1 < root_hi wide_sphere inner_ray"
    by (simp add: inner_roots ERR_MARGIN_def)
  have "0 \<le> quad_d wide_sphere inner_ray \<and> root_lo wide_sphere inner_ray < ERR_MARGIN \<and>
      1 < root_hi wide_sphere inner_ray \<longrightarrow>
      (\<exists>sp'. ray_sphere wide_sphere inner_ray True = (True, Some sp') \<and>
          sp_dist sp' = root_hi wide_sphere inner_ray \<and>
          is_root wide_sphere inner_ray (sp_dist sp') \<and> 1 < sp_dist sp')"
    using ray_sphere_distance [OF h2, of wide_sphere demo_point] by (rule conjunct2)
  with s obtain sp' where "ray_sphere wide_sphere inner_ray True = (True, Some sp')"
      "sp_dist sp' = root_hi wide_sphere inner_ray" by blast
  then have b: "\<exists>sp'. ray_sphere wide_sphere inner_ray True = (True, Some sp') \<and> sp_dist sp' = 2"
    by (auto simp: inner_roots)
  from h1 demo_hit a h2 s b show ?thesis by blast
qed

text \<open>
  Claim C3 as stated fails: a ray that starts at the centre of a sphere of radius 2 with a
  direction of length 1 has the roots \<open>-2\<close> and \<open>2\<close>; neither lies in
  \<open>[ERR_MARGIN, 1]\<close>, but they are not both below \<open>ERR_MARGIN\<close> and not both above 1, so
  \<^verbatim>\<open>ray_sphere\<close> reports a hit, at distance 2.
\<close>

theorem ray_sphere_beyond_one_counterexample:
  "ray_sphere \<lparr>pos = \<lparr>vx = 0, vy = 0, vz = 0\<rparr>, rad = 2,
                mat = \<lparr>col = \<lparr>vx = 1, vy = 1, vz = 1\<rparr>, spow = 0, refl = 0\<rparr>\<rparr>
              \<lparr>orig = \<lparr>vx = 0, vy = 0, vz = 0\<rparr>, dir = \<lparr>vx = 1, vy = 0, vz = 0\<rparr>\<rparr> True
     = (True, Some \<lparr>sp_pos = \<lparr>vx = 2, vy = 0, vz = 0\<rparr>, normal = \<lparr>vx = 1, vy = 0, vz = 0\<rparr>,
                    vref = \<lparr>vx = - 1, vy = 0, vz = 0\<rparr>, sp_dist = 2\<rparr>) \<and>
   \<not> (2::real) \<le> 1"
  by (simp add: ray_sphere_def SQ_def Let_def sqrt16 ERR_MARGIN_def NORMALIZE_def reflect_def DOT_def)

subsection \<open>Termination of trace and shade\<close>

declare trace.simps [simp del] shade.simps [simp del]

lemma trace_shade_total: "trace_shade_dom a"
proof -
  have "All trace_shade_dom"
    by (rule "trace_shade.termination" [of "measure (\<lambda>a. case a of
        Inl (g, r, depth) \<Rightarrow>
          if depth \<ge> MAX_RAY_DEPTH then 0 else 2 * nat (MAX_RAY_DEPTH - depth)
      | Inr (g, obj, sp, depth) \<Rightarrow>
          if depth \<ge> MAX_RAY_DEPTH then 1 else 2 * nat (MAX_RAY_DEPTH - depth) - 1)"])
      (auto simp: MAX_RAY_DEPTH_def)
  then show ?thesis by simp
qed

text \<open>
  Claim C6. The mutual recursion of \<^verbatim>\<open>trace\<close> and \<^verbatim>\<open>shade\<close> terminates for every scene,
  every ray, every surface point and every depth: every argument is in the domain of the
  recursion (\<open>trace_shade_dom\<close>, the accessible part of the call relation). The calls of
  \<^verbatim>\<open>shade\<close> to \<^verbatim>\<open>trace\<close> are at \<open>depth + 1\<close>, and \<^verbatim>\<open>trace\<close> returns black whenever
  \<open>depth \<ge> 5\<close>, whatever the scene.
\<close>

theorem trace_terminates:
  "trace_shade_dom (Inl (g, r, depth)) \<and> trace_shade_dom (Inr (g, obj, sp, depth)) \<and>
   (MAX_RAY_DEPTH \<le> depth \<longrightarrow> trace g r depth = \<lparr>vx = 0, vy = 0, vz = 0\<rparr>)"
  by (simp add: trace_shade_total trace.simps)

theorem trace_terminates_witness:
  "MAX_RAY_DEPTH \<le> 7 \<and>
   trace \<lparr>xres = 4, yres = 4, rays_per_pixel = 1, obj_list = [], lights = [],
          cam = \<lparr>cam_pos = \<lparr>vx = 0, vy = 0, vz = 0\<rparr>, targ = \<lparr>vx = 0, vy = 0, vz = 1\<rparr>, fov = 45\<rparr>,
          urand = replicate NRAN \<lparr>vx = 0, vy = 0, vz = 0\<rparr>, irand = replicate NRAN 0,
          little_endian = True\<rparr>
         \<lparr>orig = \<lparr>vx = 0, vy = 0, vz = 0\<rparr>, dir = \<lparr>vx = 0, vy = 0, vz = 1\<rparr>\<rparr> 7
     = \<lparr>vx = 0, vy = 0, vz = 0\<rparr>"
proof -
  have h: "MAX_RAY_DEPTH \<le> 7" by (simp add: MAX_RAY_DEPTH_def)
  with trace_terminates [of _ _ 7] show ?thesis by blast
qed

subsection \<open>The nearest hit\<close>

lemma ray_sphere_True_cases:
  "ray_sphere s r True = (False, None) \<or> (\<exists>sp. ray_sphere s r True = (True, Some sp))"
  by (simp add: ray_sphere_unfold)

lemma nearest_loop_spec:
  "case nearest_loop xs r acc of
     None \<Rightarrow> acc = None \<and> (\<forall>s\<in>set xs. ray_sphere s r True = (False, None))
   | Some (obj, sp) \<Rightarrow>
       (acc = Some (obj, sp) \<or> (obj \<in> set xs \<and> ray_sphere obj r True = (True, Some sp))) \<and>
       (\<forall>s sp'. s \<in> set xs \<and> ray_sphere s r True = (True, Some sp') \<longrightarrow> sp_dist sp \<le> sp_dist sp') \<and>
       (\<forall>o' sp'. acc = Some (o', sp') \<longrightarrow> sp_dist sp \<le> sp_dist sp')"
proof (induction xs arbitrary: acc)
  case Nil
  show ?case by (cases acc) auto
next
  case (Cons s xs)
  consider (miss) "ray_sphere s r True = (False, None)"
    | (hit) sp where "ray_sphere s r True = (True, Some sp)"
    using ray_sphere_True_cases by blast
  then show ?case
  proof cases
    case miss
    with Cons.IH [of acc] show ?thesis
      by (auto split: option.splits)
  next
    case hit
    show ?thesis
    proof (cases acc)
      case None
      with hit Cons.IH [of "Some (s, sp)"] show ?thesis
        by (auto split: option.splits)
    next
      case (Some a)
      obtain o' sp' where a: "a = (o', sp')" by (cases a)
      show ?thesis
      proof (cases "sp_dist sp < sp_dist sp'")
        case True
        with hit Some a Cons.IH [of "Some (s, sp)"] show ?thesis
          by (auto split: option.splits)
      next
        case False
        with hit Some a Cons.IH [of acc] show ?thesis
          by (auto split: option.splits)
      qed
    qed
  qed
qed

lemma nearest_loop_None:
  "nearest_loop xs r None = None \<longleftrightarrow> (\<forall>s\<in>set xs. \<not> fst (ray_sphere s r True))"
proof
  assume "nearest_loop xs r None = None"
  with nearest_loop_spec [where xs = xs and r = r and acc = None] show "\<forall>s\<in>set xs. \<not> fst (ray_sphere s r True)"
    by simp
next
  assume miss: "\<forall>s\<in>set xs. \<not> fst (ray_sphere s r True)"
  show "nearest_loop xs r None = None"
  proof (cases "nearest_loop xs r None")
    case None
    then show ?thesis .
  next
    case (Some a)
    with nearest_loop_spec [where xs = xs and r = r and acc = None] miss show ?thesis
      by (cases a) auto
  qed
qed

lemma nearest_loop_Some:
  assumes "nearest_loop xs r None = Some (obj, sp)"
  shows "obj \<in> set xs" and "ray_sphere obj r True = (True, Some sp)"
    and "\<And>s sp'. s \<in> set xs \<Longrightarrow> ray_sphere s r True = (True, Some sp') \<Longrightarrow> sp_dist sp \<le> sp_dist sp'"
  using nearest_loop_spec [where xs = xs and r = r and acc = None] assms by auto

lemma shaded_distance_set:
  assumes "set xs = set ys"
  shows "shaded_distance xs r = shaded_distance ys r"
proof -
  have one: "shaded_distance bs r = Some (sp_dist sp)"
    if eq: "set as = set bs" and a: "nearest_loop as r None = Some (obj, sp)" for as bs obj sp
  proof -
    note A = nearest_loop_Some [OF a]
    have "fst (ray_sphere obj r True)" "obj \<in> set bs" using A(1,2) eq by simp_all
    then have "nearest_loop bs r None \<noteq> None"
      unfolding nearest_loop_None by blast
    then obtain obj' sp' where b: "nearest_loop bs r None = Some (obj', sp')" by auto
    note B = nearest_loop_Some [OF b]
    have "sp_dist sp \<le> sp_dist sp'" using A(3) [of obj' sp'] B(1,2) eq by simp
    moreover have "sp_dist sp' \<le> sp_dist sp" using B(3) [of obj sp] A(1,2) eq by simp
    ultimately show ?thesis by (simp add: shaded_distance_def b)
  qed
  show ?thesis
  proof (cases "nearest_loop xs r None")
    case None
    then have "nearest_loop ys r None = None"
      using assms by (simp add: nearest_loop_None)
    with None show ?thesis by (simp add: shaded_distance_def)
  next
    case (Some a)
    obtain obj sp where a: "a = (obj, sp)" by (cases a)
    from Some a have "shaded_distance xs r = Some (sp_dist sp)"
      by (simp add: shaded_distance_def)
    moreover from Some a have "shaded_distance ys r = Some (sp_dist sp)"
      by (intro one [OF assms]) simp
    ultimately show ?thesis by simp
  qed
qed

text \<open>
  Claim C4. For every ray and every depth below the recursion limit, \<^verbatim>\<open>trace\<close> returns
  black when the ray hits no sphere of the scene, and otherwise the \<^verbatim>\<open>shade\<close> of a sphere
  of the scene with a surface point whose distance is minimal among the hit distances of
  all spheres of the scene. The distance of the shaded surface point is the same for
  every reordering of the sphere list.
\<close>

theorem trace_nearest_hit:
  assumes "depth < MAX_RAY_DEPTH"
  shows "((\<forall>s\<in>set (obj_list g). \<not> fst (ray_sphere s r True)) \<longrightarrow>
            trace g r depth = \<lparr>vx = 0, vy = 0, vz = 0\<rparr>) \<and>
         ((\<exists>s\<in>set (obj_list g). fst (ray_sphere s r True)) \<longrightarrow>
            (\<exists>obj sp. obj \<in> set (obj_list g) \<and> ray_sphere obj r True = (True, Some sp) \<and>
               (\<forall>s sp'. s \<in> set (obj_list g) \<and> ray_sphere s r True = (True, Some sp') \<longrightarrow>
                  sp_dist sp \<le> sp_dist sp') \<and>
               shaded_distance (obj_list g) r = Some (sp_dist sp) \<and>
               trace g r depth = shade g obj sp depth)) \<and>
         (\<forall>objs. mset objs = mset (obj_list g) \<longrightarrow>
            shaded_distance objs r = shaded_distance (obj_list g) r)"
proof (intro conjI impI allI)
  assume "\<forall>s\<in>set (obj_list g). \<not> fst (ray_sphere s r True)"
  then have "nearest_loop (obj_list g) r None = None" by (simp add: nearest_loop_None)
  with assms show "trace g r depth = \<lparr>vx = 0, vy = 0, vz = 0\<rparr>"
    by (simp add: trace.simps)
next
  assume "\<exists>s\<in>set (obj_list g). fst (ray_sphere s r True)"
  then have "nearest_loop (obj_list g) r None \<noteq> None" by (simp add: nearest_loop_None)
  then obtain obj sp where n: "nearest_loop (obj_list g) r None = Some (obj, sp)" by auto
  note N = nearest_loop_Some [OF n]
  have "trace g r depth = shade g obj sp depth"
    using assms n by (simp add: trace.simps)
  moreover have "shaded_distance (obj_list g) r = Some (sp_dist sp)"
    by (simp add: shaded_distance_def n)
  ultimately show "\<exists>obj sp. obj \<in> set (obj_list g) \<and> ray_sphere obj r True = (True, Some sp) \<and>
               (\<forall>s sp'. s \<in> set (obj_list g) \<and> ray_sphere s r True = (True, Some sp') \<longrightarrow>
                  sp_dist sp \<le> sp_dist sp') \<and>
               shaded_distance (obj_list g) r = Some (sp_dist sp) \<and>
               trace g r depth = shade g obj sp depth"
    using N by blast
next
  fix objs assume "mset objs = mset (obj_list g)"
  then have "set objs = set (obj_list g)" by (rule mset_eq_setD)
  then show "shaded_distance objs r = shaded_distance (obj_list g) r"
    by (rule shaded_distance_set)
qed

theorem trace_nearest_hit_witness:
  "0 < MAX_RAY_DEPTH \<and> fst (ray_sphere demo_sphere demo_ray True) \<and>
   shaded_distance (obj_list demo_scene) demo_ray = Some (1 / 2) \<and>
   trace demo_scene demo_ray 0 = shade demo_scene demo_sphere demo_point 0"
proof -
  have d: "0 < MAX_RAY_DEPTH" by (simp add: MAX_RAY_DEPTH_def)
  have h: "fst (ray_sphere demo_sphere demo_ray True)" by (simp add: demo_hit)
  then have "\<exists>s\<in>set (obj_list demo_scene). fst (ray_sphere s demo_ray True)"
    by (simp add: demo_scene_def)
  with trace_nearest_hit [OF d, of demo_scene demo_ray]
  obtain obj sp where o: "obj \<in> set (obj_list demo_scene)"
      "ray_sphere obj demo_ray True = (True, Some sp)"
      "shaded_distance (obj_list demo_scene) demo_ray = Some (sp_dist sp)"
      "trace demo_scene demo_ray 0 = shade demo_scene obj sp 0"
    by blast
  from o(1) have "obj = demo_sphere" by (simp add: demo_scene_def)
  with o(2) have "sp = demo_point" by (simp add: demo_hit)
  with o \<open>obj = demo_sphere\<close> d h show ?thesis by (simp add: demo_point_def)
qed

subsection \<open>The shading formula\<close>

lemma shadow_loop_iff:
  "shadow_loop xs r \<longleftrightarrow> (\<exists>s\<in>set xs. fst (ray_sphere s r False))"
  by (induction xs) auto

lemma MAX_c_max: "MAX_c a b = max a b"
  by (simp add: MAX_c_def max_def)

lemma lights_loop_sum:
  "lights_loop g obj sp ls c =
     \<lparr>vx = vx c + (\<Sum>l\<leftarrow>ls. vx (light_contribution g obj sp l)),
      vy = vy c + (\<Sum>l\<leftarrow>ls. vy (light_contribution g obj sp l)),
      vz = vz c + (\<Sum>l\<leftarrow>ls. vz (light_contribution g obj sp l))\<rparr>"
proof (induction ls arbitrary: c)
  case Nil
  show ?case by simp
next
  case (Cons l ls)
  show ?case
    by (simp add: Cons.IH Let_def shadow_loop_iff light_contribution_def MAX_c_max pow_def
        add.assoc)
qed

text \<open>
  Claim C5. For every sphere, surface point and depth, \<^verbatim>\<open>shade\<close> returns exactly the sum
  over the lights of the scene of the contribution of each light (nothing when a sphere
  intersects the unnormalised shadow ray; otherwise diffuse times the material colour plus
  the specular term on all three channels, with the normalised light direction), plus, when
  the reflectivity is positive, the reflectivity times the colour traced from the surface
  position along the view reflection scaled by \<^verbatim>\<open>RAY_MAG\<close> at \<open>depth + 1\<close>.
\<close>

theorem shade_is_phong_sum:
  "shade g obj sp depth = shade_spec g obj sp depth"
  by (simp add: shade.simps shade_spec_def lights_loop_sum Let_def mult.commute)

subsection \<open>Non-negative colours\<close>

lemma MAX_c_nonneg: "0 \<le> MAX_c a 0"
  by (simp add: MAX_c_def)

lemma pow_nonneg: "0 \<le> pow a b"
  by (simp add: pow_def)

lemma lights_loop_nonneg:
  "nonneg (col (mat obj)) \<Longrightarrow> nonneg c \<Longrightarrow> nonneg (lights_loop g obj sp ls c)"
proof (induction ls arbitrary: c)
  case Nil
  then show ?case by simp
next
  case (Cons l ls)
  let ?ld = "NORMALIZE \<lparr>vx = vx l - vx (sp_pos sp), vy = vy l - vy (sp_pos sp),
                   vz = vz l - vz (sp_pos sp)\<rparr>"
  let ?idiff = "MAX_c (DOT (normal sp) ?ld) 0"
  let ?ispec = "if spow (mat obj) > 0 then pow (MAX_c (DOT (vref sp) ?ld) 0) (spow (mat obj)) else 0"
  have "0 \<le> ?idiff" by (rule MAX_c_nonneg)
  moreover have "0 \<le> ?ispec" by (simp add: pow_nonneg)
  ultimately have "nonneg \<lparr>vx = vx c + (?idiff * vx (col (mat obj)) + ?ispec),
                  vy = vy c + (?idiff * vy (col (mat obj)) + ?ispec),
                  vz = vz c + (?idiff * vz (col (mat obj)) + ?ispec)\<rparr>"
    using Cons.prems by (simp add: nonneg_def)
  from Cons.IH [OF Cons.prems(1) this] Cons.IH [OF Cons.prems]
  show ?case by (simp add: Let_def)
qed

lemma nearest_loop_mem:
  "nearest_loop xs r acc = Some (obj, sp) \<Longrightarrow> obj \<in> set xs \<or> acc = Some (obj, sp)"
proof (induction xs arbitrary: acc)
  case Nil
  then show ?case by simp
next
  case (Cons s xs)
  then show ?case
    by (fastforce split: prod.splits bool.splits option.splits if_splits)
qed

lemma trace_shade_nonneg:
  assumes ok: "\<forall>s\<in>set (obj_list g). nonneg_material (mat s)"
  shows "nonneg (trace g r depth)"
    and "obj \<in> set (obj_list g) \<Longrightarrow> nonneg (shade g obj sp depth)"
  using ok
proof (induction g r depth and g obj sp depth rule: trace_shade.induct)
  case (1 g r depth)
  show ?case
  proof (cases "MAX_RAY_DEPTH \<le> depth")
    case True
    then show ?thesis by (simp add: trace.simps nonneg_def)
  next
    case False
    show ?thesis
    proof (cases "nearest_loop (obj_list g) r None")
      case None
      with False show ?thesis by (simp add: trace.simps nonneg_def)
    next
      case (Some a)
      obtain nobj nsp where a: "a = (nobj, nsp)" by (cases a)
      with Some have "nobj \<in> set (obj_list g)" using nearest_loop_mem by fastforce
      with 1 False Some a have "nonneg (shade g nobj nsp depth)" by simp
      with False Some a show ?thesis by (simp add: trace.simps)
    qed
  qed
next
  case (2 g obj sp depth)
  let ?c = "lights_loop g obj sp (lights g) \<lparr>vx = 0, vy = 0, vz = 0\<rparr>"
  from 2 have m: "nonneg_material (mat obj)" by simp
  then have c: "nonneg ?c"
    by (intro lights_loop_nonneg) (simp_all add: nonneg_material_def nonneg_def)
  show ?case
  proof (cases "0 < refl (mat obj)")
    case True
    let ?rc = "trace g \<lparr>orig = sp_pos sp,
                                 dir = \<lparr>vx = vx (vref sp) * RAY_MAG,
                                        vy = vy (vref sp) * RAY_MAG,
                                        vz = vz (vref sp) * RAY_MAG\<rparr>\<rparr> (depth + 1)"
    from 2 True have "nonneg ?rc" by simp
    with c True show ?thesis by (simp add: shade.simps Let_def nonneg_def)
  next
    case False
    with c show ?thesis by (simp add: shade.simps Let_def)
  qed
qed

declare sample_loop.simps [simp del]

lemma sample_loop_nonneg:
  "\<forall>s\<in>set (obj_list g). nonneg_material (mat s) \<Longrightarrow> 0 \<le> r \<Longrightarrow> 0 \<le> gr \<Longrightarrow> 0 \<le> b \<Longrightarrow>
         (case fst (sample_loop g i sl s samples r gr b sf0) of
            (r', gr', b') \<Rightarrow> 0 \<le> r' \<and> 0 \<le> gr' \<and> 0 \<le> b')"
proof (induction g i sl s samples r gr b sf0 rule: sample_loop.induct)
  case (1 g i sl s samples r gr b sf0)
  note ok = "1.prems"(1)
  show ?case
  proof (cases "s < samples")
    case False
    with 1 show ?thesis by (subst sample_loop.simps) simp
  next
    case True
    obtain pr sf1 where p: "get_primary_ray g sf0 i sl s = (pr, sf1)"
      by (cases "get_primary_ray g sf0 i sl s")
    have "nonneg (trace g pr 0)" using ok by (rule trace_shade_nonneg(1))
    then have c: "0 \<le> vx (trace g pr 0)" "0 \<le> vy (trace g pr 0)" "0 \<le> vz (trace g pr 0)"
      by (simp_all add: nonneg_def)
    have "case fst (sample_loop g i sl (s + 1) samples (r + vx (trace g pr 0))
            (gr + vy (trace g pr 0)) (b + vz (trace g pr 0)) sf1) of
            (r', gr', b') \<Rightarrow> 0 \<le> r' \<and> 0 \<le> gr' \<and> 0 \<le> b'"
      using "1.prems" c by (intro "1.IH" [OF True p [symmetric] refl]) simp_all
    with True p show ?thesis by (subst sample_loop.simps) (simp add: Let_def)
  qed
qed

text \<open>
  Claim C10. If every sphere of the scene has non-negative colour components, a non-negative
  specular power and a non-negative reflectivity, then for every ray and depth the colour
  returned by \<^verbatim>\<open>trace\<close> has no negative component, neither has the colour \<^verbatim>\<open>shade\<close>
  returns for any sphere of the scene and any surface point, and the averaged channel
  values that reach the pixel packing are not negative.
\<close>

theorem colours_nonneg:
  assumes "\<forall>s\<in>set (obj_list g). nonneg_material (mat s)"
  shows "nonneg (trace g r depth) \<and>
         (\<forall>obj sp. obj \<in> set (obj_list g) \<longrightarrow> nonneg (shade g obj sp depth)) \<and>
         (\<forall>i sl samples sf0. 1 \<le> samples \<longrightarrow>
            (case fst (sample_loop g i sl 0 samples 0 0 0 sf0) of
               (sr, sg, sb) \<Rightarrow>
                 0 \<le> sr * (1 / real_of_int samples) \<and> 0 \<le> sg * (1 / real_of_int samples) \<and>
                 0 \<le> sb * (1 / real_of_int samples)))"
proof (intro conjI allI impI)
  show "nonneg (trace g r depth)" using assms by (rule trace_shade_nonneg(1))
next
  fix obj sp assume "obj \<in> set (obj_list g)"
  with assms show "nonneg (shade g obj sp depth)" by (rule trace_shade_nonneg(2))
next
  fix i sl samples sf0 assume s: "1 \<le> (samples::int)"
  obtain sr sg sb where e: "fst (sample_loop g i sl 0 samples 0 0 0 sf0) = (sr, sg, sb)"
    by (cases "fst (sample_loop g i sl 0 samples 0 0 0 sf0)")
  with sample_loop_nonneg [OF assms, of 0 0 0 i sl 0 samples sf0]
  have "0 \<le> sr" "0 \<le> sg" "0 \<le> sb" by simp_all
  with s e show "case fst (sample_loop g i sl 0 samples 0 0 0 sf0) of
               (sr, sg, sb) \<Rightarrow>
                 0 \<le> sr * (1 / real_of_int samples) \<and> 0 \<le> sg * (1 / real_of_int samples) \<and>
                 0 \<le> sb * (1 / real_of_int samples)"
    by simp
qed

theorem colours_nonneg_witness:
  "nonneg_material (mat demo_sphere) \<and> nonneg (trace demo_scene demo_ray 0) \<and>
   nonneg (shade demo_scene demo_sphere demo_point 0)"
proof -
  have m: "nonneg_material (mat demo_sphere)"
    by (simp add: demo_sphere_def nonneg_material_def nonneg_def)
  then have h: "\<forall>s\<in>set (obj_list demo_scene). nonneg_material (mat s)"
    by (simp add: demo_scene_def)
  have "demo_sphere \<in> set (obj_list demo_scene)" by (simp add: demo_scene_def)
  with colours_nonneg [OF h, of demo_ray 0] m show ?thesis by blast
qed

subsection \<open>The scanline renderer\<close>













declare scanline_loop.simps [simp del] render_pixels.simps [simp del]
  render_rows.simps [simp del] thread_loop.simps [simp del]




















subsection \<open>One worker against the sequential renderer\<close>

lemma render_pixels_scanline:
  "p = j * xsz + i \<Longrightarrow>
   render_pixels g i j xsz samples rcp p st =
     map_option (\<lambda>st'. (if i < xsz then j * xsz + xsz else p, st'))
       (scanline_loop g i xsz j samples rcp st)"
proof (induction g i xsz j samples rcp st arbitrary: p rule: scanline_loop.induct)
  case (1 g i xsz sl samples rcp st)
  show ?case
  proof (cases "i < xsz")
    case False
    then show ?thesis
      by (subst render_pixels.simps, subst scanline_loop.simps) simp
  next
    case True
    obtain r gr b sf1 where s: "sample_loop g i sl 0 samples 0 0 0 (sf st) = ((r, gr, b), sf1)"
      by (metis prod_cases3 surj_pair)
    show ?thesis
    proof (cases "pack_pixel g (r * rcp) (gr * rcp) (b * rcp)")
      case None
      with True s show ?thesis
        by (subst render_pixels.simps, subst scanline_loop.simps) simp
    next
      case (Some px)
      let ?st1 = "\<lparr>fb = (fb st)(sl * xsz + i := px), sf = sf1\<rparr>"
      have ih: "render_pixels g (i + 1) sl xsz samples rcp (p + 1) ?st1 =
          map_option (\<lambda>st'. (if i + 1 < xsz then sl * xsz + xsz else p + 1, st'))
            (scanline_loop g (i + 1) xsz sl samples rcp ?st1)"
        using "1.prems" by (intro "1.IH" [OF True s [symmetric] refl refl Some]) simp
      have "(if i + 1 < xsz then sl * xsz + xsz else p + 1) = sl * xsz + xsz"
        using True "1.prems" by simp
      with ih True s Some "1.prems" show ?thesis
        by (subst render_pixels.simps, subst scanline_loop.simps) simp
    qed
  qed
qed

lemma render_pixels_row:
  assumes "p = j * xsz \<or> xsz \<le> 0"
  shows "render_pixels g 0 j xsz samples rcp p st =
     map_option (\<lambda>st'. (if 0 < xsz then (j + 1) * xsz else p, st'))
       (scanline_loop g 0 xsz j samples rcp st)"
proof (cases "0 < xsz")
  case True
  with assms have "p = j * xsz + 0" by simp
  from render_pixels_scanline [OF this, of g samples rcp st] True show ?thesis
    by (simp add: algebra_simps)
next
  case False
  then show ?thesis
    by (subst render_pixels.simps, subst scanline_loop.simps) simp
qed

lemma render_rows_thread_loop:
  "p = j * xres g \<or> xres g \<le> 0 \<Longrightarrow>
   map_option snd (render_rows g j (xres g) ysz (rays_per_pixel g)
       (1 / real_of_int (rays_per_pixel g)) p st) =
     thread_loop g \<lparr>sl_start = 0, sl_count = ysz\<rparr> j st"
proof (induction g "\<lparr>sl_start = 0, sl_count = ysz\<rparr>" j st arbitrary: p rule: thread_loop.induct)
  case (1 g j st)
  let ?rcp = "1 / real_of_int (rays_per_pixel g)"
  show ?case
  proof (cases "j < ysz")
    case False
    then show ?thesis
      by (subst render_rows.simps, subst thread_loop.simps) simp
  next
    case True
    note row = render_pixels_row [OF "1.prems", of g "rays_per_pixel g" ?rcp st]
    show ?thesis
    proof (cases "scanline_loop g 0 (xres g) j (rays_per_pixel g) ?rcp st")
      case None
      with True row show ?thesis
        by (subst render_rows.simps, subst thread_loop.simps) (simp add: render_scanline_def)
    next
      case (Some st1)
      let ?p1 = "if 0 < xres g then (j + 1) * xres g else p"
      have "?p1 = (j + 1) * xres g \<or> xres g \<le> 0" by simp
      then have "map_option snd (render_rows g (j + 1) (xres g) ysz (rays_per_pixel g) ?rcp ?p1 st1) =
          thread_loop g \<lparr>sl_start = 0, sl_count = ysz\<rparr> (j + 1) st1"
        using True Some by (intro "1.hyps") (simp_all add: render_scanline_def)
      with True row Some show ?thesis
        by (subst render_rows.simps, subst thread_loop.simps) (simp add: render_scanline_def)
    qed
  qed
qed

text \<open>With one worker the table is the single range of all scanlines, whatever the rounding.\<close>

lemma one_thread: "1 \<le> h \<Longrightarrow> cray_mt_threads rnd 1 h = Some [\<lparr>sl_start = 0, sl_count = h\<rparr>]"
  by (simp add: cray_mt_threads_def Let_def sl_loop.simps int_of_double_def)

text \<open>
  Claim C2. For the same scene, image dimensions, sample count, jitter tables and initial
  state, the multithreaded render with exactly one worker (which requires at least one
  scanline) and the sequential render produce the same result: the two framebuffers agree
  at every pixel index, in particular at every index in \<open>[0, width * height)\<close>. This does
  not depend on how the doubles of the partition are rounded.
\<close>

theorem one_worker_equals_sequential:
  assumes "1 \<le> yres g"
  shows "cray_mt_render rnd g 1 st = cray_f_render g st \<and>
         (\<forall>st1 st2. cray_mt_render rnd g 1 st = Some st1 \<and> cray_f_render g st = Some st2 \<longrightarrow>
            (\<forall>p. 0 \<le> p \<and> p < xres g * yres g \<longrightarrow> fb st1 p = fb st2 p))"
proof -
  have "cray_mt_render rnd g 1 st = thread_loop g \<lparr>sl_start = 0, sl_count = yres g\<rparr> 0 st"
    using assms by (simp add: cray_mt_render_def one_thread thread_func_def split: option.splits)
  also have "\<dots> = cray_f_render g st"
    using render_rows_thread_loop [of 0 0 g "yres g" st]
    by (simp add: cray_f_render_def render_def)
  finally have eq: "cray_mt_render rnd g 1 st = cray_f_render g st" .
  then show ?thesis by auto
qed

theorem one_worker_equals_sequential_witness:
  "1 \<le> yres demo_scene \<and>
   cray_mt_render double_round demo_scene 1 blank_state = cray_f_render demo_scene blank_state \<and>
   cray_mt_render (\<lambda>x. x) demo_scene 1 blank_state = cray_f_render demo_scene blank_state"
proof -
  have h: "1 \<le> yres demo_scene" by (simp add: demo_scene_def)
  with one_worker_equals_sequential [OF h, of double_round blank_state]
    one_worker_equals_sequential [OF h, of "\<lambda>x. x" blank_state] show ?thesis by blast
qed

end
